theory Spec2Isabelle
  imports Complex_Main "HOL-Library.List_Lexorder" "HOL-Library.Multiset"
begin

section \<open>Strings\<close>

text \<open>
  A Python \<open>str\<close> is a sequence of Unicode code points and \<open>len\<close> counts code points,
  so a string is a list of code points (natural numbers). Floats are modelled as reals.
\<close>

type_synonym uchar = nat
type_synonym ustr = "uchar list"

definition ascii :: "string \<Rightarrow> ustr" where
  "ascii s = map of_char s"

text \<open>The code points for which \<open>str.isspace\<close> holds; \<open>str.strip\<close> and the
  regular expression class \<open>\s\<close> both use this set.\<close>

definition is_space :: "uchar \<Rightarrow> bool" where
  "is_space c \<longleftrightarrow>
     (9 \<le> c \<and> c \<le> 13) \<or> (28 \<le> c \<and> c \<le> 32) \<or> c = 133 \<or> c = 160 \<or> c = 5760 \<or>
     (8192 \<le> c \<and> c \<le> 8202) \<or> c = 8232 \<or> c = 8233 \<or> c = 8239 \<or> c = 8287 \<or> c = 12288"

definition is_ascii :: "uchar \<Rightarrow> bool" where
  "is_ascii c \<longleftrightarrow> c < 128"

definition ascii_lower :: "uchar \<Rightarrow> uchar" where
  "ascii_lower c = (if 65 \<le> c \<and> c \<le> 90 then c + 32 else c)"

text \<open>
  \<open>str.lower\<close>. On a string of ASCII code points it lowers \<open>A\<close>..\<open>Z\<close>; on any other
  string it follows the case mapping of the Unicode database, which is not part of the
  repository and is the parameter \<open>L\<close> of every function that lowers a string.
\<close>

definition py_lower :: "(ustr \<Rightarrow> ustr) \<Rightarrow> ustr \<Rightarrow> ustr" where
  "py_lower L s = (if list_all is_ascii s then map ascii_lower s else L s)"

definition lstrip :: "ustr \<Rightarrow> ustr" where
  "lstrip s = dropWhile is_space s"

definition rstrip :: "ustr \<Rightarrow> ustr" where
  "rstrip s = rev (dropWhile is_space (rev s))"

definition strip :: "ustr \<Rightarrow> ustr" where
  "strip s = rstrip (lstrip s)"

text \<open>The slice \<open>xs[:n]\<close>: a negative \<open>n\<close> counts from the end.\<close>

definition slice_to :: "int \<Rightarrow> 'a list \<Rightarrow> 'a list" where
  "slice_to n xs = (if 0 \<le> n then take (nat n) xs else take (length xs - nat (- n)) xs)"

text \<open>The slice \<open>xs[n:]\<close> for an index \<open>n\<close> that is not negative.\<close>

definition slice_from :: "nat \<Rightarrow> 'a list \<Rightarrow> 'a list" where
  "slice_from n xs = drop n xs"

fun join :: "ustr \<Rightarrow> ustr list \<Rightarrow> ustr" where
  "join sep [] = []"
| "join sep [x] = x"
| "join sep (x # y # ys) = x @ sep @ join sep (y # ys)"

definition startswith :: "'a list \<Rightarrow> 'a list \<Rightarrow> bool" where
  "startswith s p \<longleftrightarrow> take (length p) s = p"

text \<open>The substring test \<open>w in s\<close>.\<close>

fun contains :: "'a list \<Rightarrow> 'a list \<Rightarrow> bool" where
  "contains [] w = (w = [])"
| "contains (c # cs) w = (startswith (c # cs) w \<or> contains cs w)"

section \<open>Tokens and the lexical score\<close>

definition is_token_char :: "uchar \<Rightarrow> bool" where
  "is_token_char c \<longleftrightarrow>
     (97 \<le> c \<and> c \<le> 122) \<or> (65 \<le> c \<and> c \<le> 90) \<or> (48 \<le> c \<and> c \<le> 57) \<or> c = 39"

text \<open>
  \<open>re.findall\<close> of a pattern \<open>[...]+\<close>: the maximal runs of code points of the class,
  from left to right. \<open>cur\<close> is the run being read.
\<close>

fun findall_runs :: "(uchar \<Rightarrow> bool) \<Rightarrow> ustr \<Rightarrow> ustr \<Rightarrow> ustr list" where
  "findall_runs P cur [] = (if cur = [] then [] else [cur])"
| "findall_runs P cur (c # cs) =
     (if P c then findall_runs P (cur @ [c]) cs
      else (if cur = [] then [] else [cur]) @ findall_runs P [] cs)"

definition simple_tokenize :: "(ustr \<Rightarrow> ustr) \<Rightarrow> ustr \<Rightarrow> ustr list" where
  "simple_tokenize L text = findall_runs is_token_char [] (py_lower L text)"

definition keyword_overlap_score :: "(ustr \<Rightarrow> ustr) \<Rightarrow> ustr \<Rightarrow> ustr \<Rightarrow> real" where
  "keyword_overlap_score L query text =
     (let q = set (simple_tokenize L query);
          t = set (simple_tokenize L text)
      in if q = {} \<or> t = {} then 0 else real (card (q \<inter> t)) / real (card (q \<union> t)))"

section \<open>Regular expressions of the ingestion filters\<close>

text \<open>
  The two header patterns are built from anchors, single code points of a class and
  greedy or lazy repetitions of a class. \<open>rmatch\<close> is the backtracking matcher of \<open>re\<close>
  for such a pattern: it is given the code point before the current position (\<open>None\<close>
  at the start of the string) and the rest of the string, and returns the number of code
  points of the first match in backtracking order. Both patterns are compiled with
  \<open>re.MULTILINE\<close>: \<open>^\<close> matches at the start and after a newline, \<open>$\<close> at the end and
  before a newline.
\<close>

datatype item =
    Bol
  | Eol
  | One "uchar \<Rightarrow> bool"
  | Star "uchar \<Rightarrow> bool"
  | LazyStar "uchar \<Rightarrow> bool"

fun rmatch :: "item list \<Rightarrow> uchar option \<Rightarrow> ustr \<Rightarrow> nat option" where
  "rmatch [] prev s = Some 0"
| "rmatch (Bol # r) prev s =
     (if prev = None \<or> prev = Some 10 then rmatch r prev s else None)"
| "rmatch (Eol # r) prev [] = rmatch r prev []"
| "rmatch (Eol # r) prev (c # cs) = (if c = 10 then rmatch r prev (c # cs) else None)"
| "rmatch (One P # r) prev [] = None"
| "rmatch (One P # r) prev (c # cs) =
     (if P c then map_option Suc (rmatch r (Some c) cs) else None)"
| "rmatch (Star P # r) prev [] = rmatch r prev []"
| "rmatch (Star P # r) prev (c # cs) =
     (if P c then
        (case rmatch (Star P # r) (Some c) cs of
           Some n \<Rightarrow> Some (Suc n)
         | None \<Rightarrow> rmatch r prev (c # cs))
      else rmatch r prev (c # cs))"
| "rmatch (LazyStar P # r) prev [] = rmatch r prev []"
| "rmatch (LazyStar P # r) prev (c # cs) =
     (case rmatch r prev (c # cs) of
        Some n \<Rightarrow> Some n
      | None \<Rightarrow> if P c then map_option Suc (rmatch (LazyStar P # r) (Some c) cs) else None)"

text \<open>\<open>pattern.search\<close>: the leftmost start with a match, as \<open>(m.start(), m.end())\<close>.
  \<open>i\<close> is the index of the current position.\<close>

fun search_from :: "item list \<Rightarrow> uchar option \<Rightarrow> ustr \<Rightarrow> nat \<Rightarrow> (nat \<times> nat) option" where
  "search_from re prev [] i =
     (case rmatch re prev [] of Some n \<Rightarrow> Some (i, i + n) | None \<Rightarrow> None)"
| "search_from re prev (c # cs) i =
     (case rmatch re prev (c # cs) of
        Some n \<Rightarrow> Some (i, i + n)
      | None \<Rightarrow> search_from re (Some c) cs (Suc i))"

definition re_search :: "item list \<Rightarrow> ustr \<Rightarrow> (nat \<times> nat) option" where
  "re_search re text = search_from re None text 0"

text \<open>
  A literal character of a pattern compiled with \<open>re.IGNORECASE\<close>: it matches both
  cases of an ASCII letter, and the code points outside ASCII that \<open>re\<close> takes as
  variants of \<open>i\<close> (U+0130, U+0131), \<open>s\<close> (U+017F) and \<open>k\<close> (U+212A).
\<close>

definition ci :: "char \<Rightarrow> uchar \<Rightarrow> bool" where
  "ci c d \<longleftrightarrow>
     (let l = ascii_lower (of_char c)
      in ascii_lower d = l \<or> (l = 105 \<and> (d = 304 \<or> d = 305)) \<or> (l = 115 \<and> d = 383)
         \<or> (l = 107 \<and> d = 8490))"

definition literal_ci :: "string \<Rightarrow> item list" where
  "literal_ci s = map (\<lambda>c. One (ci c)) s"

definition eq_or_space :: "uchar \<Rightarrow> bool" where
  "eq_or_space c \<longleftrightarrow> c = 61 \<or> is_space c"

definition not_newline :: "uchar \<Rightarrow> bool" where
  "not_newline c \<longleftrightarrow> c \<noteq> 10"

text \<open>\<^verbatim>\<open>^[=\s]*SECTION:\s*PROMPTS.*?$\<close>\<close>

definition PROMPTS_HEADER_RE :: "item list" where
  "PROMPTS_HEADER_RE =
     [Bol, Star eq_or_space] @ literal_ci ''SECTION:'' @ [Star is_space]
     @ literal_ci ''PROMPTS'' @ [LazyStar not_newline, Eol]"

text \<open>\<^verbatim>\<open>^[=\s]*SECTION:\s*.+?$\<close>\<close>

definition SECTION_HEADER_RE :: "item list" where
  "SECTION_HEADER_RE =
     [Bol, Star eq_or_space] @ literal_ci ''SECTION:'' @ [Star is_space]
     @ [One not_newline, LazyStar not_newline, Eol]"

definition strip_ignored_sections :: "ustr \<Rightarrow> ustr" where
  "strip_ignored_sections text =
     (case re_search PROMPTS_HEADER_RE text of
        None \<Rightarrow> text
      | Some (start, m_end) \<Rightarrow>
          (let tail = slice_from m_end text;
               end = (case re_search SECTION_HEADER_RE tail of
                        None \<Rightarrow> length text
                      | Some (n_start, n_end) \<Rightarrow> m_end + n_start)
           in strip (take start text @ slice_from end text)))"

section \<open>Reading the documents\<close>

datatype error =
    FileExistsError
  | PermissionError
  | IsADirectoryError
  | KeyError
  | ExternalError

text \<open>
  A path names a directory or a regular file; the content of a regular file is \<open>None\<close>
  when opening or decoding it raises. \<open>writable\<close> is \<open>False\<close> when creating a directory or
  a file raises.
\<close>

datatype node = Dir | File "ustr option"

record filesystem =
  nodes :: "(ustr \<times> node) list"
  writable :: bool

fun put_node :: "ustr \<Rightarrow> node \<Rightarrow> (ustr \<times> node) list \<Rightarrow> (ustr \<times> node) list" where
  "put_node p n [] = [(p, n)]"
| "put_node p n ((q, m) # r) = (if q = p then (p, n) # r else (q, m) # put_node p n r)"

text \<open>\<open>os.makedirs(folder, exist_ok=True)\<close>\<close>

definition makedirs :: "filesystem \<Rightarrow> ustr \<Rightarrow> error + filesystem" where
  "makedirs fs folder =
     (case map_of (nodes fs) folder of
        Some Dir \<Rightarrow> Inr fs
      | Some (File c) \<Rightarrow> Inl FileExistsError
      | None \<Rightarrow>
          if writable fs then Inr (fs\<lparr>nodes := put_node folder Dir (nodes fs)\<rparr>)
          else Inl PermissionError)"

definition isfile :: "filesystem \<Rightarrow> ustr \<Rightarrow> bool" where
  "isfile fs p = (case map_of (nodes fs) p of Some (File c) \<Rightarrow> True | _ \<Rightarrow> False)"

text \<open>\<open>open(p, "w")\<close> followed by \<open>f.write(text)\<close>\<close>

definition write_file :: "filesystem \<Rightarrow> ustr \<Rightarrow> ustr \<Rightarrow> error + filesystem" where
  "write_file fs p text =
     (if \<not> writable fs then Inl PermissionError
      else case map_of (nodes fs) p of
             Some Dir \<Rightarrow> Inl IsADirectoryError
           | _ \<Rightarrow> Inr (fs\<lparr>nodes := put_node p (File (Some text)) (nodes fs)\<rparr>))"

text \<open>\<open>open(p, "r")\<close> followed by \<open>f.read()\<close>; \<open>None\<close> when either raises.\<close>

definition read_file :: "filesystem \<Rightarrow> ustr \<Rightarrow> ustr option" where
  "read_file fs p = (case map_of (nodes fs) p of Some (File (Some c)) \<Rightarrow> Some c | _ \<Rightarrow> None)"

text \<open>\<open>os.path.join\<close> and \<open>os.path.basename\<close> of POSIX paths.\<close>

definition path_join :: "ustr \<Rightarrow> ustr \<Rightarrow> ustr" where
  "path_join a b =
     (if startswith b [47] then b
      else if a = [] \<or> last a = 47 then a @ b
      else a @ [47] @ b)"

definition basename :: "ustr \<Rightarrow> ustr" where
  "basename p = rev (takeWhile (\<lambda>c. c \<noteq> 47) (rev p))"

text \<open>\<open>s.split(sep)\<close> for a separator of one code point.\<close>

fun split_on :: "uchar \<Rightarrow> ustr \<Rightarrow> ustr \<Rightarrow> ustr list" where
  "split_on sep cur [] = [cur]"
| "split_on sep cur (c # cs) =
     (if c = sep then cur # split_on sep [] cs else split_on sep (cur @ [c]) cs)"

text \<open>
  \<open>glob.glob(pattern)\<close>: the existing paths that match the pattern. The matching of a
  path against a pattern is the library's; it is the parameter \<open>M\<close>.
\<close>

definition glob :: "(ustr \<Rightarrow> ustr \<Rightarrow> bool) \<Rightarrow> filesystem \<Rightarrow> ustr \<Rightarrow> ustr list" where
  "glob M fs pattern = filter (M pattern) (map fst (nodes fs))"

definition expand_globs ::
  "(ustr \<Rightarrow> ustr \<Rightarrow> bool) \<Rightarrow> filesystem \<Rightarrow> ustr \<Rightarrow> ustr \<Rightarrow> ustr list" where
  "expand_globs M fs folder pattern_csv =
     (let pats = filter (\<lambda>p. p \<noteq> []) (map strip (split_on 44 [] pattern_csv));
          paths = concat (map (\<lambda>pat. glob M fs (path_join folder pat)) pats)
      in sort (remdups paths))"

definition sample_text :: ustr where
  "sample_text = ascii
     (''Polar bears (Ursus maritimus) rely on sea ice to hunt seals, their primary food source. ''
      @ ''They are strong swimmers with large paws and a thick fat layer for insulation. ''
      @ ''Climate change reduces sea ice, shrinking hunting seasons and threatening populations.'')"

text \<open>The loop over the candidates: helper files are skipped, unreadable files too.\<close>

fun read_candidates ::
  "(ustr \<Rightarrow> ustr) \<Rightarrow> filesystem \<Rightarrow> ustr list \<Rightarrow> (ustr \<times> ustr) list" where
  "read_candidates L fs [] = []"
| "read_candidates L fs (p # ps) =
     (let base = basename p
      in if startswith base (ascii ''_'') \<or> contains (py_lower L base) (ascii ''prompts'')
         then read_candidates L fs ps
         else case read_file fs p of
                Some content \<Rightarrow> (p, content) # read_candidates L fs ps
              | None \<Rightarrow> read_candidates L fs ps)"

text \<open>
  The result is paired with the file system as the call leaves it, also when it raises.
\<close>

definition read_all_text_files ::
  "(ustr \<Rightarrow> ustr) \<Rightarrow> (ustr \<Rightarrow> ustr \<Rightarrow> bool) \<Rightarrow> ustr \<Rightarrow> filesystem \<Rightarrow> ustr
     \<Rightarrow> (error + (ustr \<times> ustr) list) \<times> filesystem" where
  "read_all_text_files L M docs_glob fs folder =
     (case makedirs fs folder of
        Inl e \<Rightarrow> (Inl e, fs)
      | Inr fs1 \<Rightarrow>
          (let preferred = path_join folder (ascii ''my_document.txt'');
               candidates = (if isfile fs1 preferred then [preferred]
                             else expand_globs M fs1 folder docs_glob)
           in if candidates = [] then
                (let sample_path = path_join folder (ascii ''sample_polar_bears.txt'')
                 in case write_file fs1 sample_path sample_text of
                      Inl e \<Rightarrow> (Inl e, fs1)
                    | Inr fs2 \<Rightarrow> (Inr (read_candidates L fs2 [sample_path]), fs2))
              else (Inr (read_candidates L fs1 candidates), fs1)))"

section \<open>Free-mode sentence selection\<close>

definition is_sentence_end :: "uchar \<Rightarrow> bool" where
  "is_sentence_end c \<longleftrightarrow> c = 46 \<or> c = 33 \<or> c = 63"

text \<open>
  \<open>_SENT_SPLIT_RE.split(text)\<close> for the pattern \<^verbatim>\<open>(?<=[.!?])\s+\<close>: a separator is a
  maximal run of white space that follows one of \<open>.\<close>, \<open>!\<close>, \<open>?\<close>. \<open>cur\<close> is the piece
  being read and \<open>in_sep\<close> says that the position is inside a separator.
\<close>

fun sent_split :: "ustr \<Rightarrow> bool \<Rightarrow> ustr \<Rightarrow> ustr list" where
  "sent_split cur in_sep [] = [cur]"
| "sent_split cur in_sep (c # cs) =
     (if in_sep \<and> is_space c then sent_split cur True cs
      else if is_space c \<and> cur \<noteq> [] \<and> is_sentence_end (last cur)
           then cur # sent_split [] True cs
      else sent_split (cur @ [c]) False cs)"

definition split_sentences :: "ustr \<Rightarrow> ustr list" where
  "split_sentences text =
     (let sents = map strip (filter (\<lambda>s. length (strip s) > 2) (sent_split [] False text))
      in take 50 sents)"

definition score_sentence :: "(ustr \<Rightarrow> ustr) \<Rightarrow> ustr set \<Rightarrow> ustr \<Rightarrow> real" where
  "score_sentence L query_tokens sent =
     (let toks = set (simple_tokenize L sent)
      in if toks = {} then 0
         else
           (let inter = card (query_tokens \<inter> toks);
                union = card (query_tokens \<union> toks);
                jaccard = (if union \<noteq> 0 then real inter / real union else 0);
                length_penalty = 1 / (1 + log 2 (1 + real (length sent)))
            in jaccard * 0.9 + length_penalty * 0.1))"

text \<open>
  A retrieved hit is a dictionary with the keys \<open>source\<close>, \<open>snippet\<close> and \<open>score\<close>. A key
  that is absent is \<open>None\<close>; the value of \<open>source\<close> and of \<open>score\<close> may itself be Python's
  \<open>None\<close>, the inner option.
\<close>

record hit =
  source :: "ustr option option"
  snippet :: "ustr option"
  score :: "real option option"

definition sentinel :: ustr where
  "sentinel = ascii ''I cannot find this in the documents.''"

definition ellipsis :: uchar where
  "ellipsis = 8230"

text \<open>The scored sentences of the first five hits, in the order of the two loops.\<close>

definition candidates :: "(ustr \<Rightarrow> ustr) \<Rightarrow> ustr \<Rightarrow> hit list \<Rightarrow> (real \<times> ustr) list" where
  "candidates L query hits =
     (let qtoks = set (simple_tokenize L query)
      in concat (map (\<lambda>h.
           concat (map (\<lambda>s. let score = score_sentence L qtoks s
                            in if score > 0 then [(score, s)] else [])
                       (split_sentences (case snippet h of None \<Rightarrow> [] | Some t \<Rightarrow> t))))
           (slice_to 5 hits)))"

text \<open>\<open>xs.sort(key=..., reverse=True)\<close>: the sort is stable, also when reversed.\<close>

definition sort_reverse :: "('a \<Rightarrow> real) \<Rightarrow> 'a list \<Rightarrow> 'a list" where
  "sort_reverse key xs = sort_key (\<lambda>x. - key x) xs"

text \<open>The loop that picks the sentences; \<open>picked\<close> and \<open>seen\<close> are its two variables.\<close>

fun pick ::
  "(ustr \<Rightarrow> ustr) \<Rightarrow> int \<Rightarrow> (real \<times> ustr) list \<Rightarrow> ustr list \<Rightarrow> ustr set \<Rightarrow> ustr list" where
  "pick L max_sentences [] picked seen = picked"
| "pick L max_sentences ((sc, s) # rest) picked seen =
     (let key = py_lower L s
      in if key \<in> seen then pick L max_sentences rest picked seen
         else if int (length (picked @ [s])) \<ge> max_sentences then picked @ [s]
         else pick L max_sentences rest (picked @ [s]) (insert key seen))"

text \<open>The joined sentences, before the cut to \<open>max_chars\<close>.\<close>

definition joined :: "(ustr \<Rightarrow> ustr) \<Rightarrow> ustr \<Rightarrow> hit list \<Rightarrow> int \<Rightarrow> ustr" where
  "joined L query hits max_sentences =
     strip (join (ascii '' '')
       (pick L max_sentences (sort_reverse fst (candidates L query hits)) [] {}))"

definition compose_answer_free ::
  "(ustr \<Rightarrow> ustr) \<Rightarrow> ustr \<Rightarrow> hit list \<Rightarrow> int \<Rightarrow> int \<Rightarrow> ustr" where
  "compose_answer_free L query hits max_sentences max_chars =
     (if candidates L query hits = [] then sentinel
      else
        (let ans = joined L query hits max_sentences;
             ans = (if int (length ans) > max_chars
                    then rstrip (slice_to (max_chars - 1) ans) @ [ellipsis]
                    else ans)
         in if ans = [] then sentinel else ans))"

section \<open>Process state, initialization and retrieval\<close>

text \<open>A LangChain document: its text and the \<open>source\<close> entry of its metadata.\<close>

record doc =
  page_content :: ustr
  doc_source :: "ustr option"

text \<open>
  The value of \<open>_vectorstore\<close>: a FAISS store, of which only \<open>similarity_search\<close> is used,
  or a list of documents.
\<close>

datatype store =
    Faiss "ustr \<Rightarrow> int \<Rightarrow> error + doc list"
  | Chunks "doc list"

text \<open>
  What is fixed when the module is loaded, and the services outside the repository:
  the text splitter, the embeddings, the FAISS index and the chat model.
\<close>

record env =
  use_openai :: bool
  faiss_ok :: bool
  docs_dir :: ustr
  docs_glob :: ustr
  ulower :: "ustr \<Rightarrow> ustr"
  glob_match :: "ustr \<Rightarrow> ustr \<Rightarrow> bool"
  split_text :: "ustr \<Rightarrow> ustr list"
  new_embeddings :: "error option"
  faiss_from_documents :: "doc list \<Rightarrow> error + (ustr \<Rightarrow> int \<Rightarrow> error + doc list)"
  llm :: "ustr \<Rightarrow> ustr \<Rightarrow> error + ustr option"

text \<open>The module's globals and the file system.\<close>

record state =
  files :: filesystem
  index_ready :: bool
  embeddings :: bool
  vectorstore :: "store option"
  free_chunks :: "(ustr \<times> ustr) list"

definition init_openai_mode :: "env \<Rightarrow> (ustr \<times> ustr) list \<Rightarrow> state \<Rightarrow> error option \<times> state" where
  "init_openai_mode E docs st =
     (let chunks = concat (map (\<lambda>(path, content).
                      map (\<lambda>t. \<lparr>page_content = t, doc_source = Some path\<rparr>)
                          (split_text E (strip_ignored_sections content))) docs)
      in case new_embeddings E of
           Some e \<Rightarrow> (Some e, st)
         | None \<Rightarrow>
             (let st1 = st\<lparr>embeddings := True\<rparr>
              in if faiss_ok E then
                   (case faiss_from_documents E chunks of
                      Inl e \<Rightarrow> (Some e, st1)
                    | Inr f \<Rightarrow> (None, st1\<lparr>vectorstore := Some (Faiss f)\<rparr>))
                 else (None, st1\<lparr>vectorstore := Some (Chunks chunks)\<rparr>)))"

definition init_free_mode :: "env \<Rightarrow> (ustr \<times> ustr) list \<Rightarrow> state \<Rightarrow> state" where
  "init_free_mode E docs st =
     st\<lparr>free_chunks := concat (map (\<lambda>(path, content).
           map (\<lambda>t. (path, t)) (split_text E (strip_ignored_sections content))) docs)\<rparr>"

text \<open>
  The score is computed in double precision. \<open>half_even\<close> rounds to the nearest integer,
  a tie to the even one. \<open>to_double\<close> is the double nearest to a real in the range of the
  finite doubles, a tie to the even significand: \<open>len(q & t) / len(q | t)\<close> is this double
  of the quotient. \<open>round(x, 4)\<close> rounds the exact value of the double to four decimals,
  a tie to the even one; the double it returns is the one nearest to this decimal number
  and prints as it, and \<open>round4\<close> is this decimal number.
\<close>

definition half_even :: "real \<Rightarrow> int" where
  "half_even y =
     (let f = \<lfloor>y\<rfloor>
      in if y - of_int f < 1 / 2 then f
         else if y - of_int f > 1 / 2 then f + 1
         else if even f then f else f + 1)"

definition to_double :: "real \<Rightarrow> real" where
  "to_double x =
     (if x = 0 then 0
      else
        (let e = max (\<lfloor>log 2 \<bar>x\<bar>\<rfloor> - 52) (- 1074);
             u = 2 powr (of_int e)
         in of_int (half_even (x / u)) * u))"

definition round4 :: "real \<Rightarrow> real" where
  "round4 x = of_int (half_even (to_double x * 10000)) / 10000"

text \<open>The corpus of the fallback: the documents of the store, or the free-mode chunks.\<close>

definition lexical_corpus :: "env \<Rightarrow> state \<Rightarrow> (ustr option \<times> ustr) list" where
  "lexical_corpus E st =
     (case (if use_openai E then vectorstore st else None) of
        Some (Chunks ds) \<Rightarrow> map (\<lambda>d. (doc_source d, page_content d)) ds
      | _ \<Rightarrow> map (\<lambda>(src, txt). (Some src, txt)) (free_chunks st))"

definition top_k_from_vectorstore :: "env \<Rightarrow> state \<Rightarrow> ustr \<Rightarrow> int \<Rightarrow> error + hit list" where
  "top_k_from_vectorstore E st query k =
     (case (if use_openai E \<and> faiss_ok E then vectorstore st else None) of
        Some (Faiss similarity_search) \<Rightarrow>
          (case similarity_search query k of
             Inl e \<Rightarrow> Inl e
           | Inr docs \<Rightarrow>
               Inr (map (\<lambda>d. \<lparr>source = Some (doc_source d),
                               snippet = Some (slice_to 300 (page_content d)),
                               score = Some None\<rparr>) docs))
      | _ \<Rightarrow>
          (let corpus = lexical_corpus E st;
               scored = map (\<lambda>(src, txt). (src, txt, keyword_overlap_score (ulower E) query txt))
                            corpus;
               scored = sort_reverse (\<lambda>(src, txt, sc). sc) scored
           in Inr (map (\<lambda>(src, txt, sc). \<lparr>source = Some src,
                                           snippet = Some (slice_to 300 txt),
                                           score = Some (Some (round4 sc))\<rparr>)
                       (slice_to k scored))))"

definition init :: "env \<Rightarrow> state \<Rightarrow> error option \<times> state" where
  "init E st =
     (if index_ready st then (None, st)
      else
        (case read_all_text_files (ulower E) (glob_match E) (docs_glob E) (files st) (docs_dir E) of
           (Inl e, fs) \<Rightarrow> (Some e, st\<lparr>files := fs\<rparr>)
         | (Inr docs, fs) \<Rightarrow>
             (let st1 = st\<lparr>files := fs\<rparr>
              in if use_openai E then
                   (case init_openai_mode E docs st1 of
                      (Some e, st2) \<Rightarrow> (Some e, st2)
                    | (None, st2) \<Rightarrow> (None, st2\<lparr>index_ready := True\<rparr>))
                 else (None, (init_free_mode E docs st1)\<lparr>index_ready := True\<rparr>))))"

section \<open>Query\<close>

record response =
  answer :: ustr
  sources :: "hit list"
  latency_ms :: int
  mode :: ustr
  request_id :: "ustr option"

function decimal :: "nat \<Rightarrow> ustr" where
  "decimal n = (if n < 10 then [48 + n] else decimal (n div 10) @ [48 + n mod 10])"
  by pat_completeness auto
termination
  by (relation "measure id") auto

declare decimal.simps [simp del]

text \<open>The lines \<open>[i+1] snippet\<close> of the context; \<open>h['snippet']\<close> raises when the key is
  absent.\<close>

fun context_lines :: "nat \<Rightarrow> hit list \<Rightarrow> error + ustr list" where
  "context_lines i [] = Inr []"
| "context_lines i (h # hs) =
     (case snippet h of
        None \<Rightarrow> Inl KeyError
      | Some t \<Rightarrow>
          (case context_lines (Suc i) hs of
             Inl e \<Rightarrow> Inl e
           | Inr ls \<Rightarrow> Inr ((ascii ''['' @ decimal (i + 1) @ ascii ''] '' @ t) # ls)))"

definition system_prompt :: ustr where
  "system_prompt = ascii
     (''You are a concise assistant. Answer ONLY using the provided context. ''
      @ ''If the answer is absent, say '') @ [39] @ sentinel @ [39]"

definition cue_words :: "ustr list" where
  "cue_words = map ascii
     [''list'', ''compare'', ''difference'', ''differences'', ''who'', ''what is'', ''what are'']"

text \<open>\<open>int(x)\<close> of a float: towards zero.\<close>

definition trunc :: "real \<Rightarrow> int" where
  "trunc x = (if 0 \<le> x then \<lfloor>x\<rfloor> else \<lceil>x\<rceil>)"

definition clamp_top_k :: "int \<Rightarrow> int" where
  "clamp_top_k top_k = max 1 (min 10 top_k)"

text \<open>
  \<open>t0\<close> and \<open>t1\<close> are the two readings of \<open>time.perf_counter()\<close>. The result is paired with
  the state as the call leaves it, also when it raises.
\<close>

definition get_rag_response ::
  "env \<Rightarrow> real \<Rightarrow> real \<Rightarrow> state \<Rightarrow> ustr \<Rightarrow> int \<Rightarrow> bool \<Rightarrow> ustr option
     \<Rightarrow> (error + response) \<times> state" where
  "get_rag_response E t0 t1 st query top_k trace rid =
     (case (if \<not> index_ready st then init E st else (None, st)) of
        (Some e, st1) \<Rightarrow> (Inl e, st1)
      | (None, st1) \<Rightarrow>
          (let top_k = clamp_top_k top_k
           in case top_k_from_vectorstore E st1 query top_k of
                Inl e \<Rightarrow> (Inl e, st1)
              | Inr hits \<Rightarrow>
                  (case context_lines 0 hits of
                     Inl e \<Rightarrow> (Inl e, st1)
                   | Inr ls \<Rightarrow>
                       (let context_text = join (ascii ''\<newline>\<newline>'') ls;
                            generated =
                              (if use_openai E then
                                 (let user = ascii ''Context:\<newline>'' @ context_text
                                        @ ascii ''\<newline>\<newline>Question: '' @ query
                                        @ ascii ''\<newline>''
                                  in case llm E system_prompt user of
                                       Inl e \<Rightarrow> Inl e
                                     | Inr content \<Rightarrow>
                                         Inr (strip (case content of None \<Rightarrow> [] | Some c \<Rightarrow> c)))
                               else if hits = [] then Inr sentinel
                               else
                                 (let qlow = py_lower (ulower E) query;
                                      want_more = list_ex (\<lambda>w. contains qlow w) cue_words
                                  in Inr (compose_answer_free (ulower E) query hits
                                            (if want_more then 4 else 3) 600)))
                        in case generated of
                             Inl e \<Rightarrow> (Inl e, st1)
                           | Inr ans \<Rightarrow>
                               (Inr \<lparr>answer = ans,
                                     sources = (if \<not> trace
                                                then map (\<lambda>h. h\<lparr>score := None\<rparr>) hits
                                                else hits),
                                     latency_ms = trunc ((t1 - t0) * 1000),
                                     mode = (if use_openai E then ascii ''openai''
                                             else ascii ''free''),
                                     request_id = rid\<rparr>, st1)))))"

section \<open>A run of the synthesizer\<close>

text \<open>
  A Python set is a hash table, and the order in which it holds its elements depends on
  the hash seed of the run. Here a set is the list of its elements in that order, and
  \<open>lay\<close> is the layout of the run: it puts the elements of a table in their order. The
  synthesizer uses \<open>set(...)\<close>, \<open>&\<close>, \<open>|\<close>, \<open>len\<close>, \<open>in\<close>, \<open>add\<close> and the truth value of a
  set. The functions below are the synthesizer on these tables.
\<close>

definition mk_set :: "(ustr list \<Rightarrow> ustr list) \<Rightarrow> ustr list \<Rightarrow> ustr list" where
  "mk_set lay xs = lay (remdups xs)"

definition set_and :: "(ustr list \<Rightarrow> ustr list) \<Rightarrow> ustr list \<Rightarrow> ustr list \<Rightarrow> ustr list" where
  "set_and lay a b = lay (filter (\<lambda>x. x \<in> set b) a)"

definition set_or :: "(ustr list \<Rightarrow> ustr list) \<Rightarrow> ustr list \<Rightarrow> ustr list \<Rightarrow> ustr list" where
  "set_or lay a b = lay (remdups (a @ b))"

definition set_add :: "(ustr list \<Rightarrow> ustr list) \<Rightarrow> ustr \<Rightarrow> ustr list \<Rightarrow> ustr list" where
  "set_add lay x a = (if x \<in> set a then a else lay (a @ [x]))"

definition score_sentence_run ::
  "(ustr list \<Rightarrow> ustr list) \<Rightarrow> (ustr \<Rightarrow> ustr) \<Rightarrow> ustr list \<Rightarrow> ustr \<Rightarrow> real" where
  "score_sentence_run lay L query_tokens sent =
     (let toks = mk_set lay (simple_tokenize L sent)
      in if toks = [] then 0
         else
           (let inter = length (set_and lay query_tokens toks);
                union = length (set_or lay query_tokens toks);
                jaccard = (if union \<noteq> 0 then real inter / real union else 0);
                length_penalty = 1 / (1 + log 2 (1 + real (length sent)))
            in jaccard * 0.9 + length_penalty * 0.1))"

definition candidates_run ::
  "(ustr list \<Rightarrow> ustr list) \<Rightarrow> (ustr \<Rightarrow> ustr) \<Rightarrow> ustr \<Rightarrow> hit list \<Rightarrow> (real \<times> ustr) list" where
  "candidates_run lay L query hits =
     (let qtoks = mk_set lay (simple_tokenize L query)
      in concat (map (\<lambda>h.
           concat (map (\<lambda>s. let score = score_sentence_run lay L qtoks s
                            in if score > 0 then [(score, s)] else [])
                       (split_sentences (case snippet h of None \<Rightarrow> [] | Some t \<Rightarrow> t))))
           (slice_to 5 hits)))"

fun pick_run ::
  "(ustr list \<Rightarrow> ustr list) \<Rightarrow> (ustr \<Rightarrow> ustr) \<Rightarrow> int \<Rightarrow> (real \<times> ustr) list \<Rightarrow> ustr list
     \<Rightarrow> ustr list \<Rightarrow> ustr list" where
  "pick_run lay L max_sentences [] picked seen = picked"
| "pick_run lay L max_sentences ((sc, s) # rest) picked seen =
     (let key = py_lower L s
      in if key \<in> set seen then pick_run lay L max_sentences rest picked seen
         else if int (length (picked @ [s])) \<ge> max_sentences then picked @ [s]
         else pick_run lay L max_sentences rest (picked @ [s]) (set_add lay key seen))"

definition compose_answer_free_run ::
  "(ustr list \<Rightarrow> ustr list) \<Rightarrow> (ustr \<Rightarrow> ustr) \<Rightarrow> ustr \<Rightarrow> hit list \<Rightarrow> int \<Rightarrow> int \<Rightarrow> ustr" where
  "compose_answer_free_run lay L query hits max_sentences max_chars =
     (if candidates_run lay L query hits = [] then sentinel
      else
        (let ans = strip (join (ascii '' '')
                     (pick_run lay L max_sentences
                        (sort_reverse fst (candidates_run lay L query hits)) [] []));
             ans = (if int (length ans) > max_chars
                    then rstrip (slice_to (max_chars - 1) ans) @ [ellipsis]
                    else ans)
         in if ans = [] then sentinel else ans))"

section \<open>Instances for the examples\<close>

text \<open>
  \<open>star_match\<close> is the matching of \<open>glob\<close> for a pattern with at most one \<open>*\<close>, which
  stands for any run of code points without \<open>/\<close> that does not begin a file name with a
  dot. \<open>one_chunk\<close> is the splitter on a text shorter than the chunk size: the text
  without surrounding white space, and no chunk when nothing is left. \<open>free_env\<close> is the
  default configuration without an API key; its \<open>ulower\<close> is only applied to a string with
  a code point outside ASCII, and no example has one.
\<close>

definition star_match :: "ustr \<Rightarrow> ustr \<Rightarrow> bool" where
  "star_match pat path =
     (let pre = takeWhile (\<lambda>c. c \<noteq> 42) pat;
          rest = dropWhile (\<lambda>c. c \<noteq> 42) pat
      in if rest = [] then path = pat
         else
           (let post = tl rest;
                mid = take (length path - length pre - length post) (drop (length pre) path)
            in length pre + length post \<le> length path \<and>
               take (length pre) path = pre \<and>
               drop (length path - length post) path = post \<and>
               47 \<notin> set mid \<and>
               \<not> ((pre = [] \<or> last pre = 47) \<and> startswith mid [46])))"

definition one_chunk :: "ustr \<Rightarrow> ustr list" where
  "one_chunk t = (if strip t = [] then [] else [strip t])"

definition free_env :: env where
  "free_env =
     \<lparr>use_openai = False, faiss_ok = False,
      docs_dir = ascii ''data'', docs_glob = ascii ''*.txt,*.md'',
      ulower = id, glob_match = star_match, split_text = one_chunk,
      new_embeddings = Some ExternalError,
      faiss_from_documents = (\<lambda>ds. Inl ExternalError),
      llm = (\<lambda>s u. Inl ExternalError)\<rparr>"

definition fresh_state :: state where
  "fresh_state =
     \<lparr>files = \<lparr>nodes = [], writable = True\<rparr>,
      index_ready = False, embeddings = False, vectorstore = None, free_chunks = []\<rparr>"

definition seeded_state :: state where
  "seeded_state =
     \<lparr>files = \<lparr>nodes = [(ascii ''data'', Dir),
                           (ascii ''data/sample_polar_bears.txt'', File (Some sample_text))],
               writable = True\<rparr>,
      index_ready = True, embeddings = False, vectorstore = None,
      free_chunks = [(ascii ''data/sample_polar_bears.txt'', sample_text)]\<rparr>"

definition helpers_only :: filesystem where
  "helpers_only =
     \<lparr>nodes = [(ascii ''data'', Dir),
               (ascii ''data/_notes.txt'', File (Some (ascii ''Polar bears swim.'')))],
      writable = True\<rparr>"

definition ranked_state :: state where
  "ranked_state =
     \<lparr>files = \<lparr>nodes = [], writable = False\<rparr>,
      index_ready = True, embeddings = False, vectorstore = None,
      free_chunks = [(ascii ''b.txt'', ascii ''Polar bears swim.''),
                     (ascii ''c.txt'', ascii ''Ice, sea!''),
                     (ascii ''a.txt'', ascii ''Sea ice melts.''),
                     (ascii ''d.txt'', ascii ''sea ICE'')]\<rparr>"

definition pair_state :: state where
  "pair_state =
     \<lparr>files = \<lparr>nodes = [], writable = False\<rparr>,
      index_ready = True, embeddings = False, vectorstore = None,
      free_chunks = [(ascii ''a.txt'', ascii ''Sea ice''),
                     (ascii ''b.txt'', ascii ''Polar bears swim.'')]\<rparr>"

definition twelve_state :: state where
  "twelve_state =
     \<lparr>files = \<lparr>nodes = [], writable = False\<rparr>,
      index_ready = True, embeddings = False, vectorstore = None,
      free_chunks = [(ascii ''c01.txt'', ascii ''one''), (ascii ''c02.txt'', ascii ''two''),
                     (ascii ''c03.txt'', ascii ''three''), (ascii ''c04.txt'', ascii ''four''),
                     (ascii ''c05.txt'', ascii ''five''), (ascii ''c06.txt'', ascii ''six''),
                     (ascii ''c07.txt'', ascii ''seven''), (ascii ''c08.txt'', ascii ''eight''),
                     (ascii ''c09.txt'', ascii ''nine''), (ascii ''c10.txt'', ascii ''ten''),
                     (ascii ''c11.txt'', ascii ''eleven''), (ascii ''c12.txt'', ascii ''twelve'')]\<rparr>"

section \<open>Properties of the lexical score\<close>

lemma jaccard_bounds:
  assumes "finite A" "finite B"
  shows "0 \<le> real (card (A \<inter> B)) / real (card (A \<union> B))"
    and "real (card (A \<inter> B)) / real (card (A \<union> B)) \<le> 1"
proof -
  show "0 \<le> real (card (A \<inter> B)) / real (card (A \<union> B))" by simp
  have "card (A \<inter> B) \<le> card (A \<union> B)"
    using assms by (intro card_mono) auto
  then have "real (card (A \<inter> B)) \<le> real (card (A \<union> B))" by simp
  then show "real (card (A \<inter> B)) / real (card (A \<union> B)) \<le> 1"
    by (cases "card (A \<union> B) = 0") (simp_all add: divide_le_eq)
qed

lemma jaccard_one:
  assumes "finite A" "finite B" "A \<union> B \<noteq> {}"
    and "real (card (A \<inter> B)) / real (card (A \<union> B)) = 1"
  shows "A = B"
proof -
  have "finite (A \<union> B)" using assms(1,2) by simp
  then have pos: "0 < card (A \<union> B)"
    using assms(3) by (simp only: card_gt_0_iff) simp
  with assms(4) have "card (A \<inter> B) = card (A \<union> B)" by simp
  moreover have "A \<inter> B \<subseteq> A \<union> B" by blast
  ultimately have "A \<inter> B = A \<union> B"
    using assms(1,2) by (intro card_subset_eq) auto
  then show ?thesis by blast
qed

text \<open>
  C4. For every query and every chunk text the Jaccard score lies in [0,1]; it is 0
  whenever the token set of the query or of the chunk is empty; and it is 1 only when
  the two token sets are equal and not empty.
\<close>

theorem keyword_overlap_score_range:
  "0 \<le> keyword_overlap_score L query text \<and>
   keyword_overlap_score L query text \<le> 1 \<and>
   (set (simple_tokenize L query) = {} \<or> set (simple_tokenize L text) = {}
      \<longrightarrow> keyword_overlap_score L query text = 0) \<and>
   (keyword_overlap_score L query text = 1
      \<longrightarrow> set (simple_tokenize L query) = set (simple_tokenize L text) \<and>
          set (simple_tokenize L query) \<noteq> {})"
proof -
  let ?q = "set (simple_tokenize L query)" and ?t = "set (simple_tokenize L text)"
  have fin: "finite ?q" "finite ?t" by simp_all
  show ?thesis
  proof (cases "?q = {} \<or> ?t = {}")
    case True
    then show ?thesis by (auto simp: keyword_overlap_score_def Let_def)
  next
    case False
    then have s: "keyword_overlap_score L query text
        = real (card (?q \<inter> ?t)) / real (card (?q \<union> ?t))"
      by (simp add: keyword_overlap_score_def Let_def)
    from False have ne: "?q \<union> ?t \<noteq> {}" by blast
    show ?thesis
      unfolding s using jaccard_bounds[OF fin] jaccard_one[OF fin ne] False by blast
  qed
qed

lemmas str_defs =
  ascii_def is_space_def is_ascii_def ascii_lower_def py_lower_def lstrip_def rstrip_def
  strip_def slice_to_def slice_from_def startswith_def is_token_char_def simple_tokenize_def

lemma tokens_sea_ice: "simple_tokenize id (ascii ''Sea ice'') = [ascii ''sea'', ascii ''ice'']"
  by (simp add: str_defs)

lemma tokens_ice_sea: "simple_tokenize id (ascii ''ice, sea!'') = [ascii ''ice'', ascii ''sea'']"
  by (simp add: str_defs)

lemma tokens_marks: "simple_tokenize id (ascii ''?!'') = []"
  by (simp add: str_defs)

lemma score_sea_ice: "keyword_overlap_score id (ascii ''Sea ice'') (ascii ''ice, sea!'') = 1"
  unfolding keyword_overlap_score_def tokens_sea_ice tokens_ice_sea
  by (simp add: ascii_def card_insert_if insert_commute)

theorem keyword_overlap_score_range_witness:
  "keyword_overlap_score id (ascii ''Sea ice'') (ascii ''ice, sea!'') = 1 \<and>
   set (simple_tokenize id (ascii ''Sea ice'')) = set (simple_tokenize id (ascii ''ice, sea!'')) \<and>
   set (simple_tokenize id (ascii ''Sea ice'')) \<noteq> {} \<and>
   set (simple_tokenize id (ascii ''?!'')) = {} \<and>
   keyword_overlap_score id (ascii ''?!'') (ascii ''Sea ice'') = 0"
  using keyword_overlap_score_range [of id "ascii ''Sea ice''" "ascii ''ice, sea!''"]
    keyword_overlap_score_range [of id "ascii ''?!''" "ascii ''Sea ice''"]
    score_sea_ice tokens_marks
  by simp

section \<open>Properties of the answer synthesizer\<close>

lemma length_penalty_pos: "0 < 1 / (1 + log 2 (1 + real n))"
proof -
  have "0 \<le> log 2 (1 + real n)" by simp
  then have "0 < 1 + log 2 (1 + real n)" by linarith
  then show ?thesis by (simp only: zero_less_divide_1_iff)
qed

lemma score_sentence_no_tokens:
  "simple_tokenize L s = [] \<Longrightarrow> score_sentence L qt s = 0"
  by (simp add: score_sentence_def)

lemma score_sentence_pos:
  assumes "simple_tokenize L s \<noteq> []"
  shows "0 < score_sentence L qt s"
proof -
  let ?toks = "set (simple_tokenize L s)"
  let ?j = "(if card (qt \<union> ?toks) \<noteq> 0
             then real (card (qt \<inter> ?toks)) / real (card (qt \<union> ?toks)) else 0)"
  let ?p = "1 / (1 + log 2 (1 + real (length s)))"
  have j: "0 \<le> ?j" by simp
  have p: "0 < ?p" by (rule length_penalty_pos)
  have "score_sentence L qt s = ?j * 0.9 + ?p * 0.1"
    using assms by (simp add: score_sentence_def Let_def)
  moreover have "0 < ?j * 0.9 + ?p * 0.1"
    using j p by (intro add_nonneg_pos mult_nonneg_nonneg mult_pos_pos) simp_all
  ultimately show ?thesis by simp
qed

lemma score_sentence_pos_iff: "0 < score_sentence L qt s \<longleftrightarrow> simple_tokenize L s \<noteq> []"
  using score_sentence_pos [of L s qt] score_sentence_no_tokens [of L s qt] by auto

lemma candidates_eq:
  "candidates L query hits =
     concat (map (\<lambda>h. map (\<lambda>s. (score_sentence L (set (simple_tokenize L query)) s, s))
                          (filter (\<lambda>s. simple_tokenize L s \<noteq> [])
                             (split_sentences (case snippet h of None \<Rightarrow> [] | Some t \<Rightarrow> t))))
                 (take 5 hits))"
proof -
  have inner: "concat (map (\<lambda>s. let sc = score_sentence L qt s in if sc > 0 then [(sc, s)] else []) xs)
      = map (\<lambda>s. (score_sentence L qt s, s)) (filter (\<lambda>s. simple_tokenize L s \<noteq> []) xs)"
    for qt xs
    by (induction xs) (simp_all add: Let_def score_sentence_pos_iff)
  have "candidates L query hits =
      concat (map (\<lambda>h. concat (map (\<lambda>s. let sc = score_sentence L (set (simple_tokenize L query)) s
                                           in if sc > 0 then [(sc, s)] else [])
                     (split_sentences (case snippet h of None \<Rightarrow> [] | Some t \<Rightarrow> t))))
              (take 5 hits))"
    by (simp add: candidates_def Let_def slice_to_def)
  then show ?thesis
    by (simp only: inner)
qed


lemma length_rstrip_le: "length (rstrip s) \<le> length s"
  using length_dropWhile_le [of is_space "rev s"] by (simp add: rstrip_def)

lemma rstrip_last: "rstrip s \<noteq> [] \<Longrightarrow> \<not> is_space (last (rstrip s))"
  using hd_dropWhile [of is_space "rev s"] by (simp add: rstrip_def last_rev)

lemma rstrip_id_iff: "rstrip s = s \<longleftrightarrow> s = [] \<or> \<not> is_space (last s)"
proof (cases "s = []")
  case True
  then show ?thesis by (simp add: rstrip_def)
next
  case False
  then obtain c r where r: "rev s = c # r" by (cases "rev s") auto
  then have l: "last s = c" by (metis False hd_rev list.sel(1))
  show ?thesis
  proof (cases "is_space c")
    case True
    have "length (rstrip s) \<le> length r"
      using length_dropWhile_le [of is_space r] True r by (simp add: rstrip_def)
    moreover have "length s = Suc (length r)"
      using r by (metis length_Cons length_rev)
    ultimately have "rstrip s \<noteq> s" by auto
    with True False l show ?thesis by simp
  next
    case nsp: False
    then have "rstrip s = rev (rev s)" using r by (simp add: rstrip_def)
    with nsp False l show ?thesis by simp
  qed
qed

lemma length_rstrip_eq_iff: "length (rstrip s) = length s \<longleftrightarrow> s = [] \<or> \<not> is_space (last s)"
proof -
  have "rstrip s = s" if "length (rstrip s) = length s"
  proof -
    have "length (dropWhile is_space (rev s)) = length (rev s)"
      using that by (simp add: rstrip_def)
    moreover have "length (takeWhile is_space (rev s)) + length (dropWhile is_space (rev s))
        = length (rev s)"
      by (metis length_append takeWhile_dropWhile_id)
    ultimately have "takeWhile is_space (rev s) = []" by simp
    then have "dropWhile is_space (rev s) = rev s"
      by (metis append_Nil takeWhile_dropWhile_id)
    then show ?thesis by (simp add: rstrip_def)
  qed
  then show ?thesis using rstrip_id_iff [of s] by auto
qed

lemma strip_nonempty_has_char:
  assumes "strip s \<noteq> []"
  shows "\<exists>c \<in> set (strip s). \<not> is_space c"
proof -
  have "\<not> is_space (last (strip s))"
    using assms rstrip_last [of "lstrip s"] by (simp add: strip_def)
  with assms show ?thesis by (meson last_in_set)
qed

lemma strip_nonempty_if_char:
  assumes "c \<in> set s" "\<not> is_space c"
  shows "strip s \<noteq> []"
proof -
  have "\<exists>x \<in> set s. \<not> is_space x" using assms by blast
  then have l: "dropWhile is_space s \<noteq> []" by simp
  then have "\<not> is_space (hd (dropWhile is_space s))" by (rule hd_dropWhile)
  moreover have "hd (dropWhile is_space s) \<in> set (rev (dropWhile is_space s))"
    using l by simp
  ultimately have "dropWhile is_space (rev (dropWhile is_space s)) \<noteq> []"
    by (simp only: dropWhile_eq_Nil_conv) blast
  then show ?thesis by (simp add: strip_def lstrip_def rstrip_def)
qed

lemma split_sentences_has_char:
  assumes "s \<in> set (split_sentences t)"
  shows "\<exists>c \<in> set s. \<not> is_space c"
proof -
  from assms have "s \<in> set (map strip (filter (\<lambda>s. length (strip s) > 2) (sent_split [] False t)))"
    by (auto simp: split_sentences_def Let_def dest: in_set_takeD)
  then obtain x where x: "s = strip x" "length (strip x) > 2" by auto
  then have "strip x \<noteq> []" by (cases "strip x") simp_all
  then show ?thesis using strip_nonempty_has_char [of x] x(1) by simp
qed

lemma candidates_has_char:
  assumes "(sc, s) \<in> set (candidates L query hits)"
  shows "\<exists>c \<in> set s. \<not> is_space c"
  using assms split_sentences_has_char by (auto simp: candidates_eq)

lemma pick_prefix: "\<exists>ys. pick L ms cands picked seen = picked @ ys \<and> set ys \<subseteq> snd ` set cands"
proof (induction cands arbitrary: picked seen)
  case Nil
  then show ?case by simp
next
  case (Cons a cands)
  obtain sc s where a: "a = (sc, s)" by (cases a)
  from Cons.IH [of picked seen] obtain ys1 where
    1: "pick L ms cands picked seen = picked @ ys1" "set ys1 \<subseteq> snd ` set cands" by blast
  from Cons.IH [of "picked @ [s]" "insert (py_lower L s) seen"] obtain ys2 where
    2: "pick L ms cands (picked @ [s]) (insert (py_lower L s) seen) = (picked @ [s]) @ ys2"
       "set ys2 \<subseteq> snd ` set cands" by blast
  show ?case
    using 1 2 by (auto simp: a Let_def)
qed

lemma pick_first:
  "\<exists>ys. pick L ms ((sc, s) # cands) [] {} = s # ys \<and> set ys \<subseteq> snd ` set cands"
proof -
  from pick_prefix [of L ms cands "[s]" "insert (py_lower L s) {}"] obtain ys where
    "pick L ms cands [s] {py_lower L s} = [s] @ ys" "set ys \<subseteq> snd ` set cands" by auto
  then show ?thesis by (auto simp: Let_def)
qed

lemma set_join: "c \<in> set x \<Longrightarrow> x \<in> set xs \<Longrightarrow> c \<in> set (join sep xs)"
  by (induction sep xs rule: join.induct) auto

lemma joined_nonempty:
  assumes "candidates L query hits \<noteq> []"
  shows "joined L query hits ms \<noteq> []"
proof -
  let ?cs = "sort_reverse fst (candidates L query hits)"
  have set_cs: "set ?cs = set (candidates L query hits)" by (simp add: sort_reverse_def)
  have "?cs \<noteq> []"
    using assms by (metis length_sort sort_reverse_def length_0_conv)
  then obtain sc s rest where cs: "?cs = (sc, s) # rest" by (cases ?cs) auto
  then have "(sc, s) \<in> set (candidates L query hits)" using set_cs by (metis list.set_intros(1))
  then obtain c where c: "c \<in> set s" "\<not> is_space c" using candidates_has_char by blast
  from pick_first [of L ms sc s rest] obtain ys where "pick L ms ?cs [] {} = s # ys"
    using cs by auto
  then have "c \<in> set (join (ascii '' '') (pick L ms ?cs [] {}))"
    using c(1) by (intro set_join [of c s]) simp_all
  then show ?thesis
    using c(2) strip_nonempty_if_char by (simp add: joined_def)
qed


lemma sentinel_nonempty: "sentinel \<noteq> []"
  by (simp add: sentinel_def ascii_def)

lemma compose_no_candidates:
  "candidates L query hits = [] \<Longrightarrow> compose_answer_free L query hits ms mc = sentinel"
  by (simp add: compose_answer_free_def)

lemma compose_not_truncated:
  assumes "candidates L query hits \<noteq> []" "int (length (joined L query hits ms)) \<le> mc"
  shows "compose_answer_free L query hits ms mc = joined L query hits ms"
  using assms joined_nonempty [OF assms(1), of ms]
  by (simp add: compose_answer_free_def Let_def)

lemma compose_truncated:
  assumes "candidates L query hits \<noteq> []" "int (length (joined L query hits ms)) > mc"
  shows "compose_answer_free L query hits ms mc
           = rstrip (slice_to (mc - 1) (joined L query hits ms)) @ [ellipsis]"
  using assms by (simp add: compose_answer_free_def Let_def)

text \<open>
  C2, as amended. For \<open>max_chars\<close> of at least 1: when no candidate sentence survives the
  answer is the sentinel, whatever \<open>max_chars\<close> is; otherwise the answer has at most
  \<open>max_chars\<close> code points, and when the joined sentences exceed \<open>max_chars\<close> the answer
  ends with the ellipsis and has exactly \<open>max_chars\<close> code points if and only if the cut
  does not end in white space (white space before the cut is stripped, so the answer may
  be shorter).
\<close>

theorem compose_answer_free_truncation:
  assumes "1 \<le> max_chars"
  shows "(candidates L query hits = [] \<longrightarrow>
            compose_answer_free L query hits max_sentences max_chars = sentinel) \<and>
         (candidates L query hits \<noteq> [] \<longrightarrow>
            int (length (compose_answer_free L query hits max_sentences max_chars)) \<le> max_chars \<and>
            (int (length (joined L query hits max_sentences)) > max_chars \<longrightarrow>
               last (compose_answer_free L query hits max_sentences max_chars) = ellipsis \<and>
               (int (length (compose_answer_free L query hits max_sentences max_chars)) = max_chars
                  \<longleftrightarrow> max_chars = 1 \<or>
                       \<not> is_space (joined L query hits max_sentences ! nat (max_chars - 2)))))"
proof (intro conjI impI)
  assume "candidates L query hits = []"
  then show "compose_answer_free L query hits max_sentences max_chars = sentinel"
    by (rule compose_no_candidates)
next
  assume c: "candidates L query hits \<noteq> []"
  let ?j = "joined L query hits max_sentences"
  let ?cut = "take (nat (max_chars - 1)) ?j"
  show "int (length (compose_answer_free L query hits max_sentences max_chars)) \<le> max_chars"
  proof (cases "int (length ?j) \<le> max_chars")
    case True
    then show ?thesis using compose_not_truncated [OF c True] by simp
  next
    case False
    then have "compose_answer_free L query hits max_sentences max_chars = rstrip ?cut @ [ellipsis]"
      using compose_truncated [OF c, of max_chars max_sentences] assms by (simp add: slice_to_def)
    moreover have "length (rstrip ?cut) \<le> nat (max_chars - 1)"
      using length_rstrip_le [of ?cut] by simp
    ultimately show ?thesis using assms by simp
  qed
next
  assume c: "candidates L query hits \<noteq> []"
    and t: "int (length (joined L query hits max_sentences)) > max_chars"
  let ?j = "joined L query hits max_sentences"
  let ?cut = "take (nat (max_chars - 1)) ?j"
  have r: "compose_answer_free L query hits max_sentences max_chars = rstrip ?cut @ [ellipsis]"
    using compose_truncated [OF c t] assms by (simp add: slice_to_def)
  then show "last (compose_answer_free L query hits max_sentences max_chars) = ellipsis"
    by simp
  have len: "length ?cut = nat (max_chars - 1)"
    using t by simp
  have "int (length (compose_answer_free L query hits max_sentences max_chars)) = max_chars
      \<longleftrightarrow> length (rstrip ?cut) = length ?cut"
    using r len assms by auto
  also have "\<dots> \<longleftrightarrow> ?cut = [] \<or> \<not> is_space (last ?cut)"
    by (rule length_rstrip_eq_iff)
  also have "\<dots> \<longleftrightarrow> max_chars = 1 \<or> \<not> is_space (?j ! nat (max_chars - 2))"
  proof (cases "max_chars = 1")
    case True
    then show ?thesis by simp
  next
    case False
    then have ne: "?cut \<noteq> []" using len assms by auto
    have "last ?cut = ?cut ! (length ?cut - 1)" using ne by (rule last_conv_nth)
    also have "\<dots> = ?j ! (length ?cut - 1)"
      using ne len by (intro nth_take) simp
    also have "length ?cut - 1 = nat (max_chars - 2)" using len assms False by simp
    finally show ?thesis using False ne by simp
  qed
  finally show "int (length (compose_answer_free L query hits max_sentences max_chars)) = max_chars
      \<longleftrightarrow> max_chars = 1 \<or> \<not> is_space (?j ! nat (max_chars - 2))" .
qed

lemma compose_answer_free_never_empty:
  "compose_answer_free L query hits ms mc \<noteq> []"
  using sentinel_nonempty by (simp add: compose_answer_free_def Let_def)

lemmas sent_defs = split_sentences_def is_sentence_end_def Let_def

lemma cands_bears:
  "candidates id (ascii ''bears'')
     [\<lparr>source = Some None, snippet = Some (ascii ''Polar bears swim.''), score = None\<rparr>]
   = [(score_sentence id (set (simple_tokenize id (ascii ''bears''))) (ascii ''Polar bears swim.''),
       ascii ''Polar bears swim.'')]"
  by (simp add: candidates_eq str_defs sent_defs)

lemma joined_bears:
  "joined id (ascii ''bears'')
     [\<lparr>source = Some None, snippet = Some (ascii ''Polar bears swim.''), score = None\<rparr>] 3
   = ascii ''Polar bears swim.''"
  unfolding joined_def cands_bears
  by (simp add: sort_reverse_def str_defs)

text \<open>
  C2 as stated fails: with \<open>max_chars = 7\<close> the sentence \<open>Polar bears swim.\<close> is cut to
  \<open>Polar \<close>, the blank is stripped, and the answer has 6 code points.
\<close>

theorem compose_answer_free_truncation_counterexample:
  "int (length (joined id (ascii ''bears'')
     [\<lparr>source = Some None, snippet = Some (ascii ''Polar bears swim.''), score = None\<rparr>] 3)) > 7 \<and>
   compose_answer_free id (ascii ''bears'')
     [\<lparr>source = Some None, snippet = Some (ascii ''Polar bears swim.''), score = None\<rparr>] 3 7
   = ascii ''Polar'' @ [ellipsis] \<and>
   length (compose_answer_free id (ascii ''bears'')
     [\<lparr>source = Some None, snippet = Some (ascii ''Polar bears swim.''), score = None\<rparr>] 3 7) \<noteq> 7"
  unfolding compose_answer_free_def cands_bears joined_bears
  by (simp add: str_defs)

lemma cands_ice:
  "candidates id (ascii ''ice'')
     [\<lparr>source = Some None, snippet = Some (ascii ''Sea ice melts fast.''), score = None\<rparr>]
   = [(score_sentence id (set (simple_tokenize id (ascii ''ice''))) (ascii ''Sea ice melts fast.''),
       ascii ''Sea ice melts fast.'')]"
  by (simp add: candidates_eq str_defs sent_defs)

lemma joined_ice:
  "joined id (ascii ''ice'')
     [\<lparr>source = Some None, snippet = Some (ascii ''Sea ice melts fast.''), score = None\<rparr>] 3
   = ascii ''Sea ice melts fast.''"
  unfolding joined_def cands_ice
  by (simp add: sort_reverse_def str_defs)

theorem compose_answer_free_truncation_witness:
  "(1::int) \<le> 8 \<and>
   candidates id (ascii ''ice'')
     [\<lparr>source = Some None, snippet = Some (ascii ''Sea ice melts fast.''), score = None\<rparr>] \<noteq> [] \<and>
   int (length (joined id (ascii ''ice'')
     [\<lparr>source = Some None, snippet = Some (ascii ''Sea ice melts fast.''), score = None\<rparr>] 3)) > 8 \<and>
   last (compose_answer_free id (ascii ''ice'')
     [\<lparr>source = Some None, snippet = Some (ascii ''Sea ice melts fast.''), score = None\<rparr>] 3 8)
     = ellipsis \<and>
   int (length (compose_answer_free id (ascii ''ice'')
     [\<lparr>source = Some None, snippet = Some (ascii ''Sea ice melts fast.''), score = None\<rparr>] 3 8)) = 8"
  using compose_answer_free_truncation [of 8 id "ascii ''ice''"
      "[\<lparr>source = Some None, snippet = Some (ascii ''Sea ice melts fast.''), score = None\<rparr>]" 3]
  unfolding cands_ice joined_ice
  by (simp add: str_defs)

text \<open>
  The test \<open>score > 0\<close> of the candidate loop: a sentence without any token scores 0 and
  is dropped, and a sentence with a token scores above 0 whatever its overlap with the
  query is, so that the candidates are the sentences of the first five hits that have a
  token.
\<close>

lemma score_sentence_discards_tokenless:
  "(simple_tokenize L s = [] \<longrightarrow> score_sentence L qt s = 0) \<and>
   (simple_tokenize L s \<noteq> [] \<longrightarrow> 0 < score_sentence L qt s) \<and>
   candidates L query hits =
     concat (map (\<lambda>h. map (\<lambda>s. (score_sentence L (set (simple_tokenize L query)) s, s))
                          (filter (\<lambda>s. simple_tokenize L s \<noteq> [])
                             (split_sentences (case snippet h of None \<Rightarrow> [] | Some t \<Rightarrow> t))))
                 (take 5 hits))"
  using score_sentence_no_tokens [of L s qt] score_sentence_pos [of L s qt]
    candidates_eq [of L query hits]
  by blast

text \<open>
  So the answer for no candidate, the sentinel, is out of reach as soon as one sentence
  of the first five hits has a token.
\<close>

lemma candidates_nonempty_if_token:
  assumes "h \<in> set (take 5 hits)"
    and "s \<in> set (split_sentences (case snippet h of None \<Rightarrow> [] | Some t \<Rightarrow> t))"
    and "simple_tokenize L s \<noteq> []"
  shows "candidates L query hits \<noteq> []"
proof -
  have "(score_sentence L (set (simple_tokenize L query)) s, s) \<in> set (candidates L query hits)"
    using assms by (auto simp: candidates_eq)
  then show ?thesis by auto
qed




text \<open>
  C10. For every query, hit list, \<open>max_sentences\<close> of at least 1 and \<open>max_chars\<close> of at
  least 1, the answer is not the empty string: it is the sentinel, or the joined
  sentences, or their cut followed by the ellipsis.
\<close>

theorem compose_answer_free_nonempty:
  assumes "1 \<le> max_sentences" "1 \<le> max_chars"
  shows "compose_answer_free L query hits max_sentences max_chars \<noteq> [] \<and>
         (compose_answer_free L query hits max_sentences max_chars = sentinel \<or>
          compose_answer_free L query hits max_sentences max_chars
            = joined L query hits max_sentences \<or>
          compose_answer_free L query hits max_sentences max_chars
            = rstrip (take (nat (max_chars - 1)) (joined L query hits max_sentences)) @ [ellipsis])"
proof -
  have "slice_to (max_chars - 1) (joined L query hits max_sentences)
      = take (nat (max_chars - 1)) (joined L query hits max_sentences)"
    using assms(2) by (simp add: slice_to_def)
  then show ?thesis
    using compose_answer_free_never_empty [of L query hits max_sentences max_chars]
    by (auto simp: compose_answer_free_def Let_def)
qed

theorem compose_answer_free_nonempty_witness:
  "(1::int) \<le> 3 \<and> (1::int) \<le> 600 \<and>
   compose_answer_free id (ascii ''cats'') [] 3 600 = sentinel \<and>
   compose_answer_free id (ascii ''cats'') [] 3 600 \<noteq> []"
  using compose_answer_free_nonempty [of 3 600 id "ascii ''cats''" "[]"]
  by (simp add: compose_answer_free_def candidates_def slice_to_def)

lemma layout_facts:
  assumes "\<And>xs. mset (lay xs) = mset xs"
  shows "set (lay xs) = set xs" "length (lay xs) = length xs" "lay xs = [] \<longleftrightarrow> xs = []"
    "distinct (lay xs) \<longleftrightarrow> distinct xs"
proof -
  show "distinct (lay xs) \<longleftrightarrow> distinct xs"
    using assms [of xs] by (rule mset_eq_imp_distinct_iff)
  show "set (lay xs) = set xs" using assms [of xs] by (rule mset_eq_setD)
  show l: "length (lay xs) = length xs" using assms [of xs] by (rule mset_eq_length)
  show "lay xs = [] \<longleftrightarrow> xs = []" using l by (metis length_0_conv)
qed

lemma mk_set_facts:
  assumes "\<And>xs. mset (lay xs) = mset xs"
  shows "set (mk_set lay t) = set t" "distinct (mk_set lay t)"
  using layout_facts(1,4) [OF assms, of "remdups t"] by (simp_all add: mk_set_def)

lemma score_sentence_run_eq:
  assumes "\<And>xs. mset (lay xs) = mset xs" "set qt = Q" "distinct qt"
  shows "score_sentence_run lay L qt sent = score_sentence L Q sent"
proof -
  let ?t = "simple_tokenize L sent"
  have toks: "set (mk_set lay ?t) = set ?t" "distinct (mk_set lay ?t)"
    using mk_set_facts [OF assms(1)] by simp_all
  have e: "mk_set lay ?t = [] \<longleftrightarrow> set ?t = {}"
    using toks(1) by (metis set_empty)
  have i: "length (set_and lay qt (mk_set lay ?t)) = card (Q \<inter> set ?t)"
  proof -
    have "length (set_and lay qt (mk_set lay ?t))
        = length (filter (\<lambda>x. x \<in> set ?t) qt)"
      using layout_facts(2) [OF assms(1)] toks(1) by (simp add: set_and_def)
    also have "\<dots> = card (set (filter (\<lambda>x. x \<in> set ?t) qt))"
      using assms(3) distinct_card [of "filter (\<lambda>x. x \<in> set ?t) qt"]
      by (simp only: distinct_filter)
    also have "set (filter (\<lambda>x. x \<in> set ?t) qt) = Q \<inter> set ?t"
      using assms(2) by auto
    finally show ?thesis .
  qed
  have u: "length (set_or lay qt (mk_set lay ?t)) = card (Q \<union> set ?t)"
  proof -
    have "length (set_or lay qt (mk_set lay ?t))
        = length (remdups (qt @ mk_set lay ?t))"
      using layout_facts(2) [OF assms(1)] by (simp add: set_or_def)
    also have "\<dots> = card (set (qt @ mk_set lay ?t))"
      by (rule length_remdups_card_conv)
    also have "set (qt @ mk_set lay ?t) = Q \<union> set ?t"
      using assms(2) toks(1) by simp
    finally show ?thesis .
  qed
  show ?thesis
    unfolding score_sentence_run_def score_sentence_def Let_def e i u by simp
qed

lemma candidates_run_eq:
  assumes "\<And>xs. mset (lay xs) = mset xs"
  shows "candidates_run lay L query hits = candidates L query hits"
proof -
  let ?q = "simple_tokenize L query"
  have q: "set (mk_set lay ?q) = set ?q" "distinct (mk_set lay ?q)"
    using mk_set_facts [OF assms] by simp_all
  have "score_sentence_run lay L (mk_set lay ?q) s = score_sentence L (set ?q) s" for s
    using score_sentence_run_eq [OF assms q] .
  then show ?thesis
    by (simp add: candidates_run_def candidates_def)
qed

lemma pick_run_eq:
  assumes "\<And>xs. mset (lay xs) = mset xs"
  shows "set seen = S \<Longrightarrow> pick_run lay L ms cands picked seen = pick L ms cands picked S"
proof (induction cands arbitrary: picked seen S)
  case Nil
  then show ?case by simp
next
  case (Cons a cands)
  obtain sc s where a: "a = (sc, s)" by (cases a)
  have add: "set (set_add lay (py_lower L s) seen) = insert (py_lower L s) S"
    using Cons.prems layout_facts(1) [OF assms] by (auto simp: set_add_def)
  show ?case
    using Cons.IH [OF Cons.prems] Cons.IH [OF add] Cons.prems
    by (simp add: a Let_def)
qed

lemma compose_answer_free_run_eq:
  assumes "\<And>xs. mset (lay xs) = mset xs"
  shows "compose_answer_free_run lay L query hits ms mc = compose_answer_free L query hits ms mc"
  using pick_run_eq [OF assms, of "[]" "{}"] candidates_run_eq [OF assms]
  by (simp add: compose_answer_free_run_def compose_answer_free_def joined_def)

text \<open>
  C9. Two runs of the synthesizer on the same query, the same hit list in the same order,
  the same \<open>max_sentences\<close> and the same \<open>max_chars\<close> return the same string, whatever the
  order in which each run holds the elements of its sets.
\<close>

theorem compose_answer_free_deterministic:
  assumes "\<And>xs. mset (lay1 xs) = mset xs" "\<And>xs. mset (lay2 xs) = mset xs"
  shows "compose_answer_free_run lay1 L query hits max_sentences max_chars
       = compose_answer_free_run lay2 L query hits max_sentences max_chars"
  using compose_answer_free_run_eq [OF assms(1)] compose_answer_free_run_eq [OF assms(2)]
  by simp


lemma cands_polar:
  "candidates id (ascii ''polar bears'')
     [\<lparr>source = Some None, snippet = Some (ascii ''Polar bears swim.''), score = None\<rparr>]
   = [(score_sentence id (set (simple_tokenize id (ascii ''polar bears'')))
         (ascii ''Polar bears swim.''),
       ascii ''Polar bears swim.'')]"
  by (simp add: candidates_eq str_defs sent_defs)

lemma joined_polar:
  "joined id (ascii ''polar bears'')
     [\<lparr>source = Some None, snippet = Some (ascii ''Polar bears swim.''), score = None\<rparr>] 3
   = ascii ''Polar bears swim.''"
  unfolding joined_def cands_polar
  by (simp add: sort_reverse_def str_defs)

lemma compose_polar:
  "compose_answer_free id (ascii ''polar bears'')
     [\<lparr>source = Some None, snippet = Some (ascii ''Polar bears swim.''), score = None\<rparr>] 3 600
   = ascii ''Polar bears swim.''"
  unfolding compose_answer_free_def cands_polar joined_polar
  by (simp add: str_defs)

theorem compose_answer_free_deterministic_witness:
  "(\<forall>xs :: ustr list. mset (id xs) = mset xs) \<and>
   (\<forall>xs :: ustr list. mset (rev xs) = mset xs) \<and>
   mk_set id (simple_tokenize id (ascii ''polar bears''))
     \<noteq> mk_set rev (simple_tokenize id (ascii ''polar bears'')) \<and>
   compose_answer_free_run id id (ascii ''polar bears'')
     [\<lparr>source = Some None, snippet = Some (ascii ''Polar bears swim.''), score = None\<rparr>] 3 600
   = compose_answer_free_run rev id (ascii ''polar bears'')
     [\<lparr>source = Some None, snippet = Some (ascii ''Polar bears swim.''), score = None\<rparr>] 3 600 \<and>
   compose_answer_free_run rev id (ascii ''polar bears'')
     [\<lparr>source = Some None, snippet = Some (ascii ''Polar bears swim.''), score = None\<rparr>] 3 600
   = ascii ''Polar bears swim.''"
proof -
  have l: "\<And>xs :: ustr list. mset (id xs) = mset xs" "\<And>xs :: ustr list. mset (rev xs) = mset xs"
    by simp_all
  have d: "mk_set id (simple_tokenize id (ascii ''polar bears''))
      \<noteq> mk_set rev (simple_tokenize id (ascii ''polar bears''))"
    by (simp add: mk_set_def str_defs)
  have v: "compose_answer_free_run rev id (ascii ''polar bears'')
      [\<lparr>source = Some None, snippet = Some (ascii ''Polar bears swim.''), score = None\<rparr>] 3 600
      = ascii ''Polar bears swim.''"
    using compose_answer_free_run_eq [of rev, OF l(2)] compose_polar by simp
  show ?thesis
    using compose_answer_free_deterministic [of id rev id "ascii ''polar bears''"
        "[\<lparr>source = Some None, snippet = Some (ascii ''Polar bears swim.''), score = None\<rparr>]"
        3 600, OF l] l d v
    by blast
qed

text \<open>
  The synthesizer reads the query, the snippets of the first five hits and the two
  bounds, and nothing else.
\<close>

lemma compose_answer_free_reads_snippets:
  assumes "map snippet (take 5 hits1) = map snippet (take 5 hits2)"
  shows "compose_answer_free L query hits1 ms mc = compose_answer_free L query hits2 ms mc"
proof -
  have c: "candidates L query hits =
      concat (map (\<lambda>t. map (\<lambda>s. (score_sentence L (set (simple_tokenize L query)) s, s))
                          (filter (\<lambda>s. simple_tokenize L s \<noteq> [])
                             (split_sentences (case t of None \<Rightarrow> [] | Some t \<Rightarrow> t))))
                 (map snippet (take 5 hits)))" for hits
    by (simp add: candidates_eq comp_def)
  have "candidates L query hits1 = candidates L query hits2"
    by (simp only: c assms)
  then show ?thesis
    by (simp add: compose_answer_free_def joined_def)
qed

section \<open>Properties of the ingestion filters\<close>

lemma rmatch_le: "rmatch re prev s = Some n \<Longrightarrow> n \<le> length s"
proof (induction re prev s arbitrary: n rule: rmatch.induct)
  case (8 P r prev c cs)
  then show ?case
    by (fastforce split: if_splits option.splits)
next
  case (10 P r prev c cs)
  then show ?case
    by (fastforce split: if_splits option.splits)
qed (fastforce split: if_splits option.splits)+

lemma search_from_bounds:
  "search_from re prev s i = Some (a, b) \<Longrightarrow> i \<le> a \<and> a \<le> b \<and> b \<le> i + length s"
proof (induction re prev s i rule: search_from.induct)
  case (1 re prev i)
  then show ?case by (auto split: option.splits dest: rmatch_le)
next
  case (2 re prev c cs i)
  then show ?case by (fastforce split: option.splits dest: rmatch_le)
qed

lemma re_search_bounds:
  "re_search re text = Some (a, b) \<Longrightarrow> a \<le> b \<and> b \<le> length text"
  using search_from_bounds [of re None "text" 0 a b] by (simp add: re_search_def)

text \<open>
  C7, as amended. When no line matches the excluded-section marker the text is returned
  unchanged. Otherwise the first marker is at \<open>[start, m_end)\<close>, and the text from \<open>start\<close>
  up to \<open>end\<close> is removed and the rest is stripped of surrounding white space, where
  \<open>end\<close> is the start of the first section marker found in the text after the marker line,
  or the end of the text when there is none. Only this first region is removed.
\<close>

theorem strip_ignored_sections_first_region:
  "(re_search PROMPTS_HEADER_RE text = None \<longrightarrow> strip_ignored_sections text = text) \<and>
   (re_search PROMPTS_HEADER_RE text = Some (start, m_end) \<longrightarrow>
      (\<exists>end. start \<le> m_end \<and> m_end \<le> end \<and> end \<le> length text \<and>
             strip_ignored_sections text = strip (take start text @ drop end text) \<and>
             (re_search SECTION_HEADER_RE (drop m_end text) = None \<and> end = length text \<or>
              (\<exists>n_end. re_search SECTION_HEADER_RE (drop m_end text)
                          = Some (end - m_end, n_end)))))"
proof (intro conjI impI)
  assume "re_search PROMPTS_HEADER_RE text = None"
  then show "strip_ignored_sections text = text"
    by (simp add: strip_ignored_sections_def)
next
  assume m: "re_search PROMPTS_HEADER_RE text = Some (start, m_end)"
  then have b: "start \<le> m_end" "m_end \<le> length text"
    using re_search_bounds by blast+
  show "\<exists>end. start \<le> m_end \<and> m_end \<le> end \<and> end \<le> length text \<and>
             strip_ignored_sections text = strip (take start text @ drop end text) \<and>
             (re_search SECTION_HEADER_RE (drop m_end text) = None \<and> end = length text \<or>
              (\<exists>n_end. re_search SECTION_HEADER_RE (drop m_end text)
                          = Some (end - m_end, n_end)))"
  proof (cases "re_search SECTION_HEADER_RE (drop m_end text)")
    case None
    then have "strip_ignored_sections text = strip (take start text @ drop (length text) text)"
      using m by (simp add: strip_ignored_sections_def slice_from_def)
    then show ?thesis using b None by blast
  next
    case (Some p)
    obtain n_start n_end where p: "p = (n_start, n_end)" by (cases p)
    have "n_start \<le> n_end" "n_end \<le> length (drop m_end text)"
      using re_search_bounds [of SECTION_HEADER_RE "drop m_end text" n_start n_end] Some p
      by simp_all
    then have e: "m_end + n_start \<le> length text" using b by simp
    have "strip_ignored_sections text = strip (take start text @ drop (m_end + n_start) text)"
      using m Some p by (simp add: strip_ignored_sections_def slice_from_def)
    moreover have "re_search SECTION_HEADER_RE (drop m_end text)
        = Some ((m_end + n_start) - m_end, n_end)"
      using Some p by simp
    ultimately show ?thesis using b e by (intro exI [of _ "m_end + n_start"]) auto
  qed
qed


lemmas re_defs =
  re_search_def PROMPTS_HEADER_RE_def SECTION_HEADER_RE_def literal_ci_def ci_def
  eq_or_space_def not_newline_def

text \<open>
  C7 as stated fails: of two excluded regions only the first is removed, and the second
  marker with its text is still in the output.
\<close>

theorem strip_ignored_sections_counterexample:
  "strip_ignored_sections
     (ascii ''SECTION: PROMPTS\<newline>q1\<newline>SECTION: DATA\<newline>fact\<newline>SECTION: PROMPTS\<newline>q2'')
   = ascii ''SECTION: DATA\<newline>fact\<newline>SECTION: PROMPTS\<newline>q2'' \<and>
   re_search PROMPTS_HEADER_RE
     (strip_ignored_sections
        (ascii ''SECTION: PROMPTS\<newline>q1\<newline>SECTION: DATA\<newline>fact\<newline>SECTION: PROMPTS\<newline>q2''))
   = Some (19, 35)"
  by (simp add: strip_ignored_sections_def re_defs str_defs)

theorem strip_ignored_sections_first_region_witness:
  "re_search PROMPTS_HEADER_RE (ascii ''Polar bears swim.'') = None \<and>
   strip_ignored_sections (ascii ''Polar bears swim.'') = ascii ''Polar bears swim.'' \<and>
   re_search PROMPTS_HEADER_RE
     (ascii ''intro\<newline>== SECTION: PROMPTS ==\<newline>q1\<newline>== SECTION: FACTS ==\<newline>Ice melts.'')
   = Some (6, 28) \<and>
   strip_ignored_sections
     (ascii ''intro\<newline>== SECTION: PROMPTS ==\<newline>q1\<newline>== SECTION: FACTS ==\<newline>Ice melts.'')
   = ascii ''intro\<newline>== SECTION: FACTS ==\<newline>Ice melts.''"
  using strip_ignored_sections_first_region [of "ascii ''Polar bears swim.''"]
    strip_ignored_sections_first_region
      [of "ascii ''intro\<newline>== SECTION: PROMPTS ==\<newline>q1\<newline>== SECTION: FACTS ==\<newline>Ice melts.''" 6 28]
  by (simp add: strip_ignored_sections_def re_defs str_defs)

section \<open>Properties of loading and initialization\<close>

lemmas fs_defs =
  makedirs_def isfile_def write_file_def read_file_def path_join_def basename_def glob_def
  expand_globs_def star_match_def

lemma map_of_put_node: "map_of (put_node p n xs) p = Some n"
  by (induction xs) auto

lemma basename_path_join:
  assumes "47 \<notin> set b" "b \<noteq> []"
  shows "basename (path_join a b) = b"
proof -
  let ?P = "\<lambda>c::nat. c \<noteq> 47"
  have nb: "\<not> startswith b [47]"
    using assms by (cases b) (auto simp: startswith_def)
  have all: "\<And>x. x \<in> set (rev b) \<Longrightarrow> ?P x" using assms(1) by auto
  have key: "takeWhile ?P (rev b @ 47 # xs) = rev b" for xs
    using takeWhile_append2 [of "rev b" ?P "47 # xs"] all by simp
  have "takeWhile ?P (rev b) = rev b"
    using all by (simp add: takeWhile_eq_all_conv)
  then have nil: "rev (takeWhile ?P (rev b)) = b" by (simp only: rev_rev_ident)
  consider "a = []" | a' where "a = a' @ [47]" | "a \<noteq> []" "last a \<noteq> 47" 
    by (metis append_butlast_last_id)
  then show ?thesis
  proof cases
    case 1
    then show ?thesis using nb nil by (simp add: basename_def path_join_def)
  next
    case 2
    then show ?thesis using nb key [of "rev a'"] by (simp add: basename_def path_join_def)
  next
    case 3
    then show ?thesis using nb key [of "rev a"] by (simp add: basename_def path_join_def)
  qed
qed

text \<open>
  When there is no preferred file and no path matches a pattern, the sample is written
  and it is the one document read.
\<close>

lemma read_all_text_files_seeds:
  assumes "makedirs fs folder = Inr fs1"
    and "\<not> isfile fs1 (path_join folder (ascii ''my_document.txt''))"
    and "expand_globs M fs1 folder pattern_csv = []"
    and "write_file fs1 (path_join folder (ascii ''sample_polar_bears.txt'')) sample_text = Inr fs2"
  shows "read_all_text_files L M pattern_csv fs folder
           = (Inr [(path_join folder (ascii ''sample_polar_bears.txt''), sample_text)], fs2)"
proof -
  let ?p = "path_join folder (ascii ''sample_polar_bears.txt'')"
  have b: "basename ?p = ascii ''sample_polar_bears.txt''"
    by (rule basename_path_join) (simp_all add: ascii_def)
  have "nodes fs2 = put_node ?p (File (Some sample_text)) (nodes fs1)"
    using assms(4) by (auto simp: write_file_def split: if_splits option.splits node.splits)
  then have r: "read_file fs2 ?p = Some sample_text"
    by (simp add: read_file_def map_of_put_node)
  have "read_candidates L fs2 [?p] = [(?p, sample_text)]"
    unfolding read_candidates.simps b Let_def r
    by (simp add: str_defs)
  then show ?thesis
    using assms by (simp add: read_all_text_files_def Let_def)
qed

text \<open>
  C3. The seeding is decided before the helper files are skipped: a directory that holds
  only a helper file is not seeded, no document is read, and the index is built without
  any chunk.
\<close>

theorem read_all_text_files_helpers_only:
  "read_all_text_files id star_match (ascii ''*.txt,*.md'') helpers_only (ascii ''data'')
     = (Inr [], helpers_only) \<and>
   init free_env
     \<lparr>files = helpers_only, index_ready = False, embeddings = False, vectorstore = None,
      free_chunks = []\<rparr>
     = (None, \<lparr>files = helpers_only, index_ready = True, embeddings = False,
               vectorstore = None, free_chunks = []\<rparr>)"
proof -
  have r: "read_all_text_files id star_match (ascii ''*.txt,*.md'') helpers_only (ascii ''data'')
      = (Inr [], helpers_only)"
    by (simp add: read_all_text_files_def helpers_only_def fs_defs str_defs Let_def)
  have e: "ulower free_env = id" "glob_match free_env = star_match"
    "docs_glob free_env = ascii ''*.txt,*.md''" "docs_dir free_env = ascii ''data''"
    "\<not> use_openai free_env"
    by (simp_all add: free_env_def)
  show ?thesis
    using r by (simp add: init_def e init_free_mode_def)
qed

lemma read_empty:
  "read_all_text_files id star_match (ascii ''*.txt,*.md'') \<lparr>nodes = [], writable = True\<rparr> (ascii ''data'')
     = (Inr [(ascii ''data/sample_polar_bears.txt'', sample_text)], files seeded_state)"
  by (simp add: read_all_text_files_def seeded_state_def fs_defs str_defs Let_def)

lemma sample_no_marker: "re_search PROMPTS_HEADER_RE sample_text = None"
  by (simp add: sample_text_def re_defs str_defs)

lemma strip_sample: "strip_ignored_sections sample_text = sample_text"
  by (simp add: strip_ignored_sections_def sample_no_marker)

lemma one_chunk_sample: "one_chunk sample_text = [sample_text]"
  by (simp add: one_chunk_def sample_text_def str_defs)

lemma init_fresh: "init free_env fresh_state = (None, seeded_state)"
proof -
  have r: "read_all_text_files (ulower free_env) (glob_match free_env) (docs_glob free_env)
             (files fresh_state) (docs_dir free_env)
           = (Inr [(ascii ''data/sample_polar_bears.txt'', sample_text)], files seeded_state)"
    using read_empty by (simp add: free_env_def fresh_state_def)
  show ?thesis
    unfolding init_def r
    by (simp add: free_env_def fresh_state_def seeded_state_def init_free_mode_def
        strip_sample one_chunk_sample)
qed

text \<open>
  C8. Once the index is built, \<open>init\<close> returns without changing the state: the globals
  and the file system are as before. So a build that has succeeded leaves a state in which
  another build changes nothing.
\<close>

theorem init_idempotent:
  "(index_ready st \<longrightarrow> init E st = (None, st)) \<and>
   (init E st = (None, st') \<longrightarrow> index_ready st' \<and> init E st' = (None, st'))"
proof -
  have ready: "index_ready st' " if "init E st = (None, st')"
    using that
    by (auto simp: init_def Let_def split: if_splits prod.splits sum.splits option.splits)
  show ?thesis
    using ready by (auto simp: init_def)
qed

theorem init_idempotent_witness:
  "index_ready seeded_state \<and> init free_env seeded_state = (None, seeded_state) \<and>
   init free_env fresh_state = (None, seeded_state)"
  using init_idempotent [of seeded_state free_env seeded_state]
    init_idempotent [of fresh_state free_env seeded_state] init_fresh
  by (simp add: seeded_state_def)

section \<open>Properties of retrieval and of the entry point\<close>

lemma powr_neg_numeral: "(2::real) powr (- numeral n) = 1 / 2 ^ numeral n"
proof -
  have "(2::real) powr (- numeral n) = inverse (2 powr numeral n)" by (rule powr_minus)
  also have "(2::real) powr numeral n = 2 ^ numeral n" by (rule powr_numeral) simp
  finally show ?thesis by (simp only: inverse_eq_divide)
qed

lemma half_even_of_int: "half_even (of_int n) = n"
  by (simp add: half_even_def)

lemma to_double_0: "to_double 0 = 0"
  by (simp add: to_double_def)

lemma to_double_1: "to_double 1 = 1"
proof -
  have e: "max (\<lfloor>log 2 \<bar>1::real\<bar>\<rfloor> - 52) (- 1074) = - 52" by simp
  have u: "(2::real) powr of_int (- 52) = 1 / 2 ^ 52"
    by (simp add: powr_neg_numeral)
  have h: "half_even (1 / (1 / 2 ^ 52)) = 2 ^ 52"
    using half_even_of_int [of "2 ^ 52"] by simp
  show ?thesis
    unfolding to_double_def Let_def e u h by simp
qed


lemma round4_0: "round4 0 = 0"
  by (simp add: round4_def to_double_0 half_even_def)

lemma round4_1: "round4 1 = 1"
proof -
  have "half_even 10000 = 10000" using half_even_of_int [of 10000] by simp
  then show ?thesis by (simp add: round4_def to_double_1)
qed

lemma floor_log2_160: "\<lfloor>log 2 \<bar>1 / 160 :: real\<bar>\<rfloor> = - 8"
proof -
  have "(2::real) powr of_int (- 8) \<le> 1 / 160 \<and> 1 / 160 < (2::real) powr of_int (- 8 + 1)"
    by (simp add: powr_neg_numeral)
  then have "\<lfloor>log 2 (1 / 160 :: real)\<rfloor> = - 8"
    using floor_log_eq_powr_iff [of "1 / 160 :: real" 2 "- 8"] by simp
  then show ?thesis by simp
qed

text \<open>The quotient 1/160 lies halfway between 0.0062 and 0.0063; its double lies above.\<close>

lemma round4_160: "round4 (1 / 160) = 63 / 10000"
proof -
  have e: "max (\<lfloor>log 2 \<bar>1 / 160 :: real\<bar>\<rfloor> - 52) (- 1074) = - 60"
    unfolding floor_log2_160 by simp
  have u: "(2::real) powr of_int (- 60) = 1 / 2 ^ 60"
    by (simp add: powr_neg_numeral)
  have h: "half_even (1 / 160 / (1 / 2 ^ 60)) = 7205759403792794"
    by (simp add: half_even_def)
  have d: "to_double (1 / 160) = 7205759403792794 / 2 ^ 60"
    unfolding to_double_def Let_def e u h by simp
  have "half_even (7205759403792794 / 2 ^ 60 * 10000) = 63"
    by (simp add: half_even_def)
  then show ?thesis
    unfolding round4_def d by simp
qed


lemma insort_key_map:
  "insort_key f (g x) (map g xs) = map g (insort_key (\<lambda>y. f (g y)) x xs)"
  by (induction xs) simp_all

lemma sort_key_map: "sort_key f (map g xs) = map g (sort_key (\<lambda>y. f (g y)) xs)"
  by (induction xs) (simp_all add: insort_key_map)

lemma length_slice_to: "0 \<le> k \<Longrightarrow> length (slice_to k xs) \<le> nat k"
  by (simp add: slice_to_def)

lemma top_k_lexical:
  assumes "\<not> (use_openai E \<and> faiss_ok E \<and> (\<exists>f. vectorstore st = Some (Faiss f)))"
  shows "top_k_from_vectorstore E st query k =
           Inr (map (\<lambda>(src, txt).
                      \<lparr>source = Some src, snippet = Some (take 300 txt),
                       score = Some (Some (round4 (keyword_overlap_score (ulower E) query txt)))\<rparr>)
                  (slice_to k
                     (sort_key (\<lambda>c. - keyword_overlap_score (ulower E) query (snd c))
                        (lexical_corpus E st))))"
proof -
  let ?g = "\<lambda>c. (fst c, snd c, keyword_overlap_score (ulower E) query (snd c))"
  let ?h = "\<lambda>(src, txt, sc). \<lparr>source = Some src, snippet = Some (slice_to 300 txt),
                                score = Some (Some (round4 sc))\<rparr>"
  let ?r = "sort_key (\<lambda>c. - keyword_overlap_score (ulower E) query (snd c)) (lexical_corpus E st)"
  have "top_k_from_vectorstore E st query k =
      Inr (map ?h (slice_to k (sort_key (\<lambda>(src, txt, sc). - sc) (map ?g (lexical_corpus E st)))))"
    using assms
    by (auto simp: top_k_from_vectorstore_def Let_def sort_reverse_def
        case_prod_unfold split: option.splits store.splits if_splits)
  also have "sort_key (\<lambda>(src, txt, sc). - sc) (map ?g (lexical_corpus E st)) = map ?g ?r"
    by (simp add: sort_key_map)
  also have "slice_to k (map ?g ?r) = map ?g (slice_to k ?r)"
    by (simp add: slice_to_def take_map)
  also have "map ?h (map ?g (slice_to k ?r))
      = map (\<lambda>(src, txt).
               \<lparr>source = Some src, snippet = Some (take 300 txt),
                score = Some (Some (round4 (keyword_overlap_score (ulower E) query txt)))\<rparr>)
          (slice_to k ?r)"
    by (simp add: slice_to_def case_prod_unfold)
  finally show ?thesis .
qed

text \<open>
  C5, as amended. Lexical retrieval ranks the corpus: the ranking is a rearrangement of
  the corpus, descending in Jaccard score, with chunks of equal score in their original
  order. For a count \<open>k\<close> that is not negative it returns the first \<open>k\<close> chunks of the
  ranking; for a negative \<open>k\<close> it returns the ranking without its last \<open>-k\<close> chunks. The
  corpus is the free-mode chunk list, or in OpenAI mode the document list of the store.
\<close>

theorem lexical_retrieval_top_k:
  assumes "\<not> use_openai E \<and> corpus = map (\<lambda>(src, txt). (Some src, txt)) (free_chunks st) \<or>
           use_openai E \<and> vectorstore st = Some (Chunks ds) \<and>
             corpus = map (\<lambda>d. (doc_source d, page_content d)) ds"
  shows "\<exists>ranked.
           top_k_from_vectorstore E st query k
             = Inr (map (\<lambda>(src, txt).
                          \<lparr>source = Some src, snippet = Some (take 300 txt),
                           score = Some (Some (round4
                             (keyword_overlap_score (ulower E) query txt)))\<rparr>)
                      (if 0 \<le> k then take (nat k) ranked
                       else take (length ranked - nat (- k)) ranked)) \<and>
           mset ranked = mset corpus \<and>
           sorted_wrt (\<lambda>a b. keyword_overlap_score (ulower E) query (snd b)
                               \<le> keyword_overlap_score (ulower E) query (snd a)) ranked \<and>
           (\<forall>v. filter (\<lambda>c. keyword_overlap_score (ulower E) query (snd c) = v) ranked
                  = filter (\<lambda>c. keyword_overlap_score (ulower E) query (snd c) = v) corpus)"
proof -
  let ?f = "\<lambda>c :: ustr option \<times> ustr. - keyword_overlap_score (ulower E) query (snd c)"
  let ?r = "sort_key ?f corpus"
  have path: "\<not> (use_openai E \<and> faiss_ok E \<and> (\<exists>f. vectorstore st = Some (Faiss f)))"
    using assms by auto
  have corpus: "lexical_corpus E st = corpus"
    using assms by (auto simp: lexical_corpus_def)
  have 1: "top_k_from_vectorstore E st query k
      = Inr (map (\<lambda>(src, txt).
                   \<lparr>source = Some src, snippet = Some (take 300 txt),
                    score = Some (Some (round4 (keyword_overlap_score (ulower E) query txt)))\<rparr>)
               (if 0 \<le> k then take (nat k) ?r else take (length ?r - nat (- k)) ?r))"
    using top_k_lexical [OF path, of query k] by (simp add: corpus slice_to_def)
  have 2: "mset ?r = mset corpus" by simp
  have "sorted (map ?f ?r)" by (rule sorted_sort_key)
  then have 3: "sorted_wrt (\<lambda>a b. keyword_overlap_score (ulower E) query (snd b)
                               \<le> keyword_overlap_score (ulower E) query (snd a)) ?r"
    by (simp add: sorted_map)
  have 4: "filter (\<lambda>c. keyword_overlap_score (ulower E) query (snd c) = v) ?r
         = filter (\<lambda>c. keyword_overlap_score (ulower E) query (snd c) = v) corpus" for v
    using sort_key_stable [of ?f "- v" corpus] by simp
  show ?thesis using 1 2 3 4 by blast
qed


lemma tokens_examples:
  "simple_tokenize id (ascii ''sea ice'') = [ascii ''sea'', ascii ''ice'']"
  "simple_tokenize id (ascii ''Polar bears swim.'') = [ascii ''polar'', ascii ''bears'', ascii ''swim'']"
  "simple_tokenize id (ascii ''Ice, sea!'') = [ascii ''ice'', ascii ''sea'']"
  "simple_tokenize id (ascii ''Sea ice melts.'') = [ascii ''sea'', ascii ''ice'', ascii ''melts'']"
  "simple_tokenize id (ascii ''sea ICE'') = [ascii ''sea'', ascii ''ice'']"
  "simple_tokenize id (ascii ''Sea ice'') = [ascii ''sea'', ascii ''ice'']"
  by (simp_all add: str_defs)

lemma scores_examples:
  "keyword_overlap_score id (ascii ''sea ice'') (ascii ''Polar bears swim.'') = 0"
  "keyword_overlap_score id (ascii ''sea ice'') (ascii ''Ice, sea!'') = 1"
  "keyword_overlap_score id (ascii ''sea ice'') (ascii ''Sea ice melts.'') = 2 / 3"
  "keyword_overlap_score id (ascii ''sea ice'') (ascii ''sea ICE'') = 1"
  "keyword_overlap_score id (ascii ''sea ice'') (ascii ''Sea ice'') = 1"
  unfolding keyword_overlap_score_def tokens_examples
  by (simp_all add: ascii_def card_insert_if insert_commute Int_insert_left)

lemma free_env_lexical:
  "\<not> (use_openai free_env \<and> faiss_ok free_env \<and> (\<exists>f. vectorstore st = Some (Faiss f)))"
  "lexical_corpus free_env st = map (\<lambda>(src, txt). (Some src, txt)) (free_chunks st)"
  "ulower free_env = id"
  by (simp_all add: free_env_def lexical_corpus_def)

lemma top_2_example:
  "top_k_from_vectorstore free_env ranked_state (ascii ''sea ice'') 2 =
     Inr [\<lparr>source = Some (Some (ascii ''c.txt'')), snippet = Some (ascii ''Ice, sea!''),
           score = Some (Some 1)\<rparr>,
          \<lparr>source = Some (Some (ascii ''d.txt'')), snippet = Some (ascii ''sea ICE''),
           score = Some (Some 1)\<rparr>]"
  unfolding top_k_lexical [OF free_env_lexical(1)] free_env_lexical(2,3) ranked_state_def
  by (simp add: scores_examples round4_1 slice_to_def) (simp add: ascii_def)

text \<open>
  C5 as stated fails for a negative count: with \<open>k = -1\<close> and two chunks, retrieval
  returns the first chunk of the ranking, not no chunk.
\<close>

theorem lexical_retrieval_negative_k_counterexample:
  "top_k_from_vectorstore free_env pair_state (ascii ''sea ice'') (- 1) =
     Inr [\<lparr>source = Some (Some (ascii ''a.txt'')), snippet = Some (ascii ''Sea ice''),
           score = Some (Some 1)\<rparr>] \<and>
   top_k_from_vectorstore free_env pair_state (ascii ''sea ice'') (- 1) \<noteq> Inr []"
proof -
  have "top_k_from_vectorstore free_env pair_state (ascii ''sea ice'') (- 1) =
     Inr [\<lparr>source = Some (Some (ascii ''a.txt'')), snippet = Some (ascii ''Sea ice''),
           score = Some (Some 1)\<rparr>]"
    unfolding top_k_lexical [OF free_env_lexical(1)] free_env_lexical(2,3) pair_state_def
    by (simp add: scores_examples round4_1 slice_to_def) (simp add: ascii_def)
  then show ?thesis by simp
qed

theorem lexical_retrieval_top_k_witness:
  "\<not> use_openai free_env \<and>
   top_k_from_vectorstore free_env ranked_state (ascii ''sea ice'') 2 =
     Inr [\<lparr>source = Some (Some (ascii ''c.txt'')), snippet = Some (ascii ''Ice, sea!''),
           score = Some (Some 1)\<rparr>,
          \<lparr>source = Some (Some (ascii ''d.txt'')), snippet = Some (ascii ''sea ICE''),
           score = Some (Some 1)\<rparr>] \<and>
   (\<exists>ranked.
      mset ranked = mset (map (\<lambda>(src, txt). (Some src, txt)) (free_chunks ranked_state)) \<and>
      top_k_from_vectorstore free_env ranked_state (ascii ''sea ice'') 2
        = Inr (map (\<lambda>(src, txt).
                     \<lparr>source = Some src, snippet = Some (take 300 txt),
                      score = Some (Some (round4
                        (keyword_overlap_score (ulower free_env) (ascii ''sea ice'') txt)))\<rparr>)
                 (take 2 ranked)))"
proof -
  have h: "\<not> use_openai free_env \<and>
      map (\<lambda>(src, txt). (Some src, txt)) (free_chunks ranked_state)
        = map (\<lambda>(src, txt). (Some src, txt)) (free_chunks ranked_state) \<or>
      use_openai free_env \<and> vectorstore ranked_state = Some (Chunks []) \<and>
      map (\<lambda>(src, txt). (Some src, txt)) (free_chunks ranked_state)
        = map (\<lambda>d. (doc_source d, page_content d)) []"
    by (simp add: free_env_def)
  from lexical_retrieval_top_k [OF h, of "ascii ''sea ice''" 2] obtain ranked where
    "top_k_from_vectorstore free_env ranked_state (ascii ''sea ice'') 2
      = Inr (map (\<lambda>(src, txt).
                   \<lparr>source = Some src, snippet = Some (take 300 txt),
                    score = Some (Some (round4
                      (keyword_overlap_score (ulower free_env) (ascii ''sea ice'') txt)))\<rparr>)
               (take 2 ranked))"
    "mset ranked = mset (map (\<lambda>(src, txt). (Some src, txt)) (free_chunks ranked_state))"
    by auto
  then show ?thesis
    using top_2_example by (auto simp: free_env_def)
qed


lemma clamp_top_k_cases:
  "clamp_top_k top_k = (if top_k < 1 then 1 else if 10 < top_k then 10 else top_k)"
  by (simp add: clamp_top_k_def)

lemma top_k_length:
  assumes "top_k_from_vectorstore E st query k = Inr hits" "0 \<le> k"
    and "\<forall>f q n ds. vectorstore st = Some (Faiss f) \<longrightarrow> f q n = Inr ds \<longrightarrow> 0 \<le> n
            \<longrightarrow> length ds \<le> nat n"
  shows "length hits \<le> nat k"
proof (cases "use_openai E \<and> faiss_ok E \<and> (\<exists>f. vectorstore st = Some (Faiss f))")
  case True
  then obtain f where f: "vectorstore st = Some (Faiss f)" by blast
  with True assms(1) obtain ds where ds: "f query k = Inr ds" "length hits = length ds"
    by (auto simp: top_k_from_vectorstore_def split: sum.splits)
  then show ?thesis using assms(2,3) f by metis
next
  case False
  then obtain h :: "ustr option \<times> ustr \<Rightarrow> hit" and r where "hits = map h (slice_to k r)"
    using top_k_lexical [OF False, of query k] assms(1) by auto
  then show ?thesis using length_slice_to [OF assms(2)] by simp
qed

lemma top_k_snippets:
  assumes "top_k_from_vectorstore E st query k = Inr hits"
  shows "\<forall>h \<in> set hits. snippet h \<noteq> None"
  using assms
  by (auto simp: top_k_from_vectorstore_def Let_def
      split: option.splits store.splits if_splits sum.splits)

lemma context_lines_total:
  "\<forall>h \<in> set hits. snippet h \<noteq> None \<Longrightarrow> \<exists>ls. context_lines i hits = Inr ls"
proof (induction hits arbitrary: i)
  case Nil
  then show ?case by simp
next
  case (Cons h hits)
  then obtain ls where "context_lines (Suc i) hits = Inr ls" by fastforce
  moreover obtain t where "snippet h = Some t" using Cons.prems by auto
  ultimately show ?case by simp
qed

lemma get_rag_response_hits:
  assumes "get_rag_response E t0 t1 st query top_k trace rid = (Inr r, st')"
  shows "\<exists>hits. top_k_from_vectorstore E st' query (clamp_top_k top_k) = Inr hits \<and>
               sources r = (if \<not> trace then map (\<lambda>h. h\<lparr>score := None\<rparr>) hits else hits)"
  using assms
  by (auto simp: get_rag_response_def Let_def
      split: if_splits prod.splits option.splits sum.splits)


lemma get_rag_response_free_returns:
  assumes "\<not> use_openai E" "index_ready st"
  shows "\<exists>r. get_rag_response E t0 t1 st query top_k trace rid = (Inr r, st)"
proof -
  have "\<not> (use_openai E \<and> faiss_ok E \<and> (\<exists>f. vectorstore st = Some (Faiss f)))"
    using assms(1) by simp
  from top_k_lexical [OF this] obtain hits where
    h: "top_k_from_vectorstore E st query (clamp_top_k top_k) = Inr hits"
    by blast
  obtain ls where ls: "context_lines 0 hits = Inr ls"
    using context_lines_total top_k_snippets [OF h] by blast
  show ?thesis
    using assms h ls by (simp add: get_rag_response_def Let_def)
qed

text \<open>
  C6. The entry point clamps \<open>top_k\<close>: a value below 1 becomes 1, a value above 10 becomes
  10, and a value from 1 to 10 is kept. Retrieval is called with the clamped value, the
  hits of the result are those it returns (without their scores unless tracing), and
  there are at most 10 of them; for a FAISS store this uses that \<open>similarity_search\<close>
  returns at most \<open>k\<close> documents.
\<close>

theorem get_rag_response_clamps_top_k:
  assumes "get_rag_response E t0 t1 st query top_k trace rid = (Inr r, st')"
    and "\<forall>f q n ds. vectorstore st' = Some (Faiss f) \<longrightarrow> f q n = Inr ds \<longrightarrow> 0 \<le> n
            \<longrightarrow> length ds \<le> nat n"
  shows "clamp_top_k top_k = (if top_k < 1 then 1 else if 10 < top_k then 10 else top_k) \<and>
         (\<exists>hits. top_k_from_vectorstore E st' query
                   (if top_k < 1 then 1 else if 10 < top_k then 10 else top_k) = Inr hits \<and>
                 sources r = (if trace then hits else map (\<lambda>h. h\<lparr>score := None\<rparr>) hits)) \<and>
         length (sources r) \<le> 10"
proof -
  let ?k = "if top_k < 1 then 1 else if 10 < top_k then 10 else top_k"
  have c: "clamp_top_k top_k = ?k" by (rule clamp_top_k_cases)
  from get_rag_response_hits [OF assms(1)] obtain hits where
    h: "top_k_from_vectorstore E st' query ?k = Inr hits"
    and s: "sources r = (if \<not> trace then map (\<lambda>h. h\<lparr>score := None\<rparr>) hits else hits)"
    unfolding c by blast
  have "0 \<le> ?k" "?k \<le> 10" by simp_all
  then have "length hits \<le> 10"
    using top_k_length [OF h _ assms(2)] by linarith
  then have "length (sources r) \<le> 10" using s by (simp split: if_splits)
  moreover have "sources r = (if trace then hits else map (\<lambda>h. h\<lparr>score := None\<rparr>) hits)"
    using s by simp
  ultimately show ?thesis using c h by blast
qed


lemma tokens_twelve:
  "simple_tokenize id (ascii ''one'') = [ascii ''one'']"
  "simple_tokenize id (ascii ''two'') = [ascii ''two'']"
  "simple_tokenize id (ascii ''three'') = [ascii ''three'']"
  "simple_tokenize id (ascii ''four'') = [ascii ''four'']"
  "simple_tokenize id (ascii ''five'') = [ascii ''five'']"
  "simple_tokenize id (ascii ''six'') = [ascii ''six'']"
  "simple_tokenize id (ascii ''seven'') = [ascii ''seven'']"
  "simple_tokenize id (ascii ''eight'') = [ascii ''eight'']"
  "simple_tokenize id (ascii ''nine'') = [ascii ''nine'']"
  "simple_tokenize id (ascii ''ten'') = [ascii ''ten'']"
  "simple_tokenize id (ascii ''eleven'') = [ascii ''eleven'']"
  "simple_tokenize id (ascii ''twelve'') = [ascii ''twelve'']"
  by (simp_all add: str_defs)

lemma scores_twelve:
  "keyword_overlap_score id (ascii ''sea ice'') (ascii ''one'') = 0"
  "keyword_overlap_score id (ascii ''sea ice'') (ascii ''two'') = 0"
  "keyword_overlap_score id (ascii ''sea ice'') (ascii ''three'') = 0"
  "keyword_overlap_score id (ascii ''sea ice'') (ascii ''four'') = 0"
  "keyword_overlap_score id (ascii ''sea ice'') (ascii ''five'') = 0"
  "keyword_overlap_score id (ascii ''sea ice'') (ascii ''six'') = 0"
  "keyword_overlap_score id (ascii ''sea ice'') (ascii ''seven'') = 0"
  "keyword_overlap_score id (ascii ''sea ice'') (ascii ''eight'') = 0"
  "keyword_overlap_score id (ascii ''sea ice'') (ascii ''nine'') = 0"
  "keyword_overlap_score id (ascii ''sea ice'') (ascii ''ten'') = 0"
  "keyword_overlap_score id (ascii ''sea ice'') (ascii ''eleven'') = 0"
  "keyword_overlap_score id (ascii ''sea ice'') (ascii ''twelve'') = 0"
  unfolding keyword_overlap_score_def tokens_twelve tokens_examples
  by (simp_all add: ascii_def)

lemma slice_to_map: "slice_to k (map f xs) = map f (slice_to k xs)"
  by (simp add: slice_to_def take_map)

lemma top_k_twelve:
  "top_k_from_vectorstore free_env twelve_state (ascii ''sea ice'') k =
     Inr (map (\<lambda>(src, txt). \<lparr>source = Some (Some src), snippet = Some txt, score = Some (Some 0)\<rparr>)
            (slice_to k (free_chunks twelve_state)))"
proof -
  let ?c = "map (\<lambda>(src, txt). (Some src, txt)) (free_chunks twelve_state)"
  let ?h = "\<lambda>(src, txt). \<lparr>source = Some src, snippet = Some (take 300 txt),
      score = Some (Some (round4 (keyword_overlap_score id (ascii ''sea ice'') txt)))\<rparr>"
  let ?h' = "\<lambda>(src, txt). \<lparr>source = Some (Some src), snippet = Some txt, score = Some (Some 0)\<rparr>"
  have r: "sort_key (\<lambda>c. - keyword_overlap_score id (ascii ''sea ice'') (snd c)) ?c = ?c"
    unfolding twelve_state_def by (simp add: scores_twelve)
  have m: "map ?h ?c = map ?h' (free_chunks twelve_state)"
    unfolding twelve_state_def by (simp add: scores_twelve round4_0) (simp add: ascii_def)
  have "top_k_from_vectorstore free_env twelve_state (ascii ''sea ice'') k
      = Inr (map ?h (slice_to k ?c))"
    unfolding top_k_lexical [OF free_env_lexical(1)] free_env_lexical(2,3) r ..
  also have "map ?h (slice_to k ?c) = slice_to k (map ?h ?c)"
    by (simp only: slice_to_map)
  also have "\<dots> = map ?h' (slice_to k (free_chunks twelve_state))"
    unfolding m by (simp only: slice_to_map)
  finally show ?thesis .
qed

theorem get_rag_response_clamps_top_k_witness:
  "(\<exists>r. get_rag_response free_env 0 (1 / 4) twelve_state (ascii ''sea ice'') 50 False None
           = (Inr r, twelve_state) \<and>
        map source (sources r) = [Some (Some (ascii ''c01.txt'')), Some (Some (ascii ''c02.txt'')), Some (Some (ascii ''c03.txt'')), Some (Some (ascii ''c04.txt'')), Some (Some (ascii ''c05.txt'')), Some (Some (ascii ''c06.txt'')), Some (Some (ascii ''c07.txt'')), Some (Some (ascii ''c08.txt'')), Some (Some (ascii ''c09.txt'')), Some (Some (ascii ''c10.txt''))]) \<and>
   (\<exists>r. get_rag_response free_env 0 (1 / 4) twelve_state (ascii ''sea ice'') 0 False None
           = (Inr r, twelve_state) \<and>
        map source (sources r) = [Some (Some (ascii ''c01.txt''))]) \<and>
   (\<exists>r. get_rag_response free_env 0 (1 / 4) twelve_state (ascii ''sea ice'') 3 False None
           = (Inr r, twelve_state) \<and>
        map source (sources r) = [Some (Some (ascii ''c01.txt'')), Some (Some (ascii ''c02.txt'')), Some (Some (ascii ''c03.txt''))])"
proof -
  have f: "\<forall>f q n ds. vectorstore twelve_state = Some (Faiss f) \<longrightarrow> f q n = Inr ds \<longrightarrow> 0 \<le> n
      \<longrightarrow> length ds \<le> nat n"
    by (simp add: twelve_state_def)
  have e: "\<not> use_openai free_env" "index_ready twelve_state"
    by (simp_all add: free_env_def twelve_state_def)
  have main: "\<exists>r. get_rag_response free_env 0 (1 / 4) twelve_state (ascii ''sea ice'') tk False None
        = (Inr r, twelve_state) \<and>
      map source (sources r)
        = map (\<lambda>(src, txt). Some (Some src))
            (slice_to (if tk < 1 then 1 else if 10 < tk then 10 else tk)
               (free_chunks twelve_state))" for tk
  proof -
    obtain r where r: "get_rag_response free_env 0 (1 / 4) twelve_state (ascii ''sea ice'') tk
        False None = (Inr r, twelve_state)"
      using get_rag_response_free_returns [OF e] by blast
    from get_rag_response_clamps_top_k [OF r f] obtain hits where
      h: "top_k_from_vectorstore free_env twelve_state (ascii ''sea ice'')
            (if tk < 1 then 1 else if 10 < tk then 10 else tk) = Inr hits"
      and s: "sources r = map (\<lambda>h. h\<lparr>score := None\<rparr>) hits"
      by auto
    have "map source (sources r) = map source hits"
      unfolding s by simp
    also have "hits = map (\<lambda>(src, txt). \<lparr>source = Some (Some src), snippet = Some txt,
                                         score = Some (Some 0)\<rparr>)
        (slice_to (if tk < 1 then 1 else if 10 < tk then 10 else tk) (free_chunks twelve_state))"
      using h unfolding top_k_twelve by simp
    finally show ?thesis using r by (auto simp: case_prod_unfold comp_def)
  qed
  show ?thesis
    using main [of 50] main [of 0] main [of 3]
    by (simp add: twelve_state_def slice_to_def)
qed

end
